theory Spec2Isabelle
  imports Complex_Main "HOL-Library.Word"
begin

unbundle bit_operations_syntax

section \<open>Bytes, errors and the helpers of the codec\<close>

text \<open>
  The model follows \<^verbatim>\<open>Lib/fontTools/ttLib/tables/TupleVariation.py\<close>.
  Python integers are \<open>int\<close>; lengths, offsets and counts are \<open>nat\<close>; a byte
  string is a list of 8-bit words. Every exception the source can raise is a value
  of \<open>error\<close>, returned as \<open>Inl\<close>. A name that ends in an underscore in the source
  carries a prime after it here, since a constant name cannot end in an underscore.
\<close>

type_synonym byte = "8 word"

datatype error = ValueError | IndexError | AssertionError | StructError | TypeError

definition EMBEDDED_PEAK_TUPLE :: int where "EMBEDDED_PEAK_TUPLE = 0x8000"
definition INTERMEDIATE_REGION :: int where "INTERMEDIATE_REGION = 0x4000"
definition PRIVATE_POINT_NUMBERS :: int where "PRIVATE_POINT_NUMBERS = 0x2000"

definition DELTAS_ARE_ZERO :: int where "DELTAS_ARE_ZERO = 0x80"
definition DELTAS_ARE_WORDS :: int where "DELTAS_ARE_WORDS = 0x40"
definition DELTA_RUN_COUNT_MASK :: int where "DELTA_RUN_COUNT_MASK = 0x3f"

definition POINTS_ARE_WORDS :: int where "POINTS_ARE_WORDS = 0x80"
definition POINT_RUN_COUNT_MASK :: int where "POINT_RUN_COUNT_MASK = 0x7f"

text \<open>\<^verbatim>\<open>bytechr(n)\<close> raises ValueError outside \<open>0..255\<close>; \<^verbatim>\<open>byteord\<close> reads a byte.\<close>

definition bytechr :: "int \<Rightarrow> error + byte" where
  "bytechr n = (if 0 \<le> n \<and> n \<le> 255 then Inr (word_of_int n) else Inl ValueError)"

definition byteord :: "byte \<Rightarrow> int" where
  "byteord b = uint b"

text \<open>
  \<^verbatim>\<open>struct.pack('b', v)\<close> and \<^verbatim>\<open>struct.pack('>h', v)\<close>: one signed byte, and a
  signed 16-bit value in big-endian order; both raise \<^verbatim>\<open>struct.error\<close> out of range.
  The two's complement of a negative value is written out with \<open>mod\<close>.
\<close>

definition pack_b :: "int \<Rightarrow> error + byte list" where
  "pack_b v = (if - 128 \<le> v \<and> v \<le> 127 then Inr [word_of_int v] else Inl StructError)"

definition pack_h :: "int \<Rightarrow> error + byte list" where
  "pack_h v =
     (if - 32768 \<le> v \<and> v \<le> 32767
      then Inr [word_of_int ((v mod 65536) div 256), word_of_int ((v mod 65536) mod 256)]
      else Inl StructError)"

text \<open>
  \<^verbatim>\<open>for i in range(offset, pos): stream.write(pack(deltas[i]))\<close>: the values are
  written in order; the first one that cannot be packed raises.
\<close>

fun write_packed :: "(int \<Rightarrow> error + byte list) \<Rightarrow> int list \<Rightarrow> byte list \<Rightarrow> error + byte list" where
  "write_packed pack [] stream = Inr stream"
| "write_packed pack (v # vs) stream =
     (case pack v of Inl e \<Rightarrow> Inl e | Inr bs \<Rightarrow> write_packed pack vs (stream @ bs))"

text \<open>
  \<^verbatim>\<open>array.array(typecode).fromstring(s)\<close> followed by \<^verbatim>\<open>byteswap()\<close> on a
  little-endian machine: the items of \<open>s\<close> read in big-endian order. The typecodes
  used are \<open>b\<close> (signed byte), \<open>B\<close> (unsigned byte), \<open>h\<close> (signed 16 bits) and
  \<open>H\<close> (unsigned 16 bits). A string whose length is not a multiple of the item size
  raises ValueError.
\<close>

datatype typecode = TC_b | TC_B | TC_h | TC_H

fun words_be :: "byte list \<Rightarrow> int list" where
  "words_be (hi # lo # rest) = (256 * uint hi + uint lo) # words_be rest"
| "words_be _ = []"

definition signed16 :: "int \<Rightarrow> int" where
  "signed16 u = (if u \<ge> 32768 then u - 65536 else u)"

definition array_fromstring :: "typecode \<Rightarrow> byte list \<Rightarrow> error + int list" where
  "array_fromstring tc s =
     (case tc of
        TC_b \<Rightarrow> Inr (map sint s)
      | TC_B \<Rightarrow> Inr (map uint s)
      | TC_h \<Rightarrow> (if odd (length s) then Inl ValueError else Inr (map signed16 (words_be s)))
      | TC_H \<Rightarrow> (if odd (length s) then Inl ValueError else Inr (words_be s)))"

text \<open>The slice \<^verbatim>\<open>data[pos:pos+size]\<close>; it is shorter than \<open>n\<close> past the end.\<close>

definition slice :: "byte list \<Rightarrow> nat \<Rightarrow> nat \<Rightarrow> byte list" where
  "slice data pos n = take n (drop pos data)"

section \<open>The size of a tuple header\<close>

definition getTupleSize_' :: "int \<Rightarrow> int \<Rightarrow> int" where
  "getTupleSize_' flags axisCount =
     (let size = 4;
          size = (if (flags AND EMBEDDED_PEAK_TUPLE) \<noteq> 0 then size + axisCount * 2 else size);
          size = (if (flags AND INTERMEDIATE_REGION) \<noteq> 0 then size + axisCount * 4 else size)
      in size)"

section \<open>The delta encoder\<close>

text \<open>
  Each of the three run encoders scans from \<open>offset\<close> with a loop over
  \<open>(pos, runLength)\<close>, asserts \<open>1 \<le> runLength \<le> 64\<close>, and writes the run header and
  the payload to the stream. It returns the new position and the stream.
\<close>

function encodeDeltaRunAsZeroes_loop :: "int list \<Rightarrow> nat \<Rightarrow> nat \<Rightarrow> nat \<times> nat" where
  "encodeDeltaRunAsZeroes_loop deltas pos runLength =
     (if pos < length deltas \<and> runLength < 64 \<and> deltas ! pos = 0
      then encodeDeltaRunAsZeroes_loop deltas (pos + 1) (runLength + 1)
      else (pos, runLength))"
  by pat_completeness auto
termination
  by (relation "measure (\<lambda>(deltas, pos, runLength). length deltas - pos)") auto

declare encodeDeltaRunAsZeroes_loop.simps [simp del]

definition encodeDeltaRunAsZeroes_' :: "int list \<Rightarrow> nat \<Rightarrow> byte list \<Rightarrow> error + (nat \<times> byte list)" where
  "encodeDeltaRunAsZeroes_' deltas offset stream =
     (case encodeDeltaRunAsZeroes_loop deltas offset 0 of
        (pos, runLength) \<Rightarrow>
          if \<not> (runLength \<ge> 1 \<and> runLength \<le> 64) then Inl AssertionError
          else (case bytechr (DELTAS_ARE_ZERO OR (int runLength - 1)) of
                  Inl e \<Rightarrow> Inl e
                | Inr h \<Rightarrow> Inr (pos, stream @ [h])))"

function encodeDeltaRunAsBytes_loop :: "int list \<Rightarrow> nat \<Rightarrow> nat \<Rightarrow> nat \<times> nat" where
  "encodeDeltaRunAsBytes_loop deltas pos runLength =
     (if pos < length deltas \<and> runLength < 64 then
        (let v = deltas ! pos in
         if v < - 128 \<or> v > 127 then (pos, runLength)
         else if v = 0 \<and> pos + 1 < length deltas \<and> deltas ! (pos + 1) = 0
         then (pos, runLength)
         else encodeDeltaRunAsBytes_loop deltas (pos + 1) (runLength + 1))
      else (pos, runLength))"
  by pat_completeness auto
termination
  by (relation "measure (\<lambda>(deltas, pos, runLength). length deltas - pos)") auto

declare encodeDeltaRunAsBytes_loop.simps [simp del]

definition encodeDeltaRunAsBytes_' :: "int list \<Rightarrow> nat \<Rightarrow> byte list \<Rightarrow> error + (nat \<times> byte list)" where
  "encodeDeltaRunAsBytes_' deltas offset stream =
     (case encodeDeltaRunAsBytes_loop deltas offset 0 of
        (pos, runLength) \<Rightarrow>
          if \<not> (runLength \<ge> 1 \<and> runLength \<le> 64) then Inl AssertionError
          else (case bytechr (int runLength - 1) of
                  Inl e \<Rightarrow> Inl e
                | Inr h \<Rightarrow>
                    (case write_packed pack_b (map (\<lambda>i. deltas ! i) [offset..<pos]) (stream @ [h]) of
                       Inl e \<Rightarrow> Inl e
                     | Inr stream' \<Rightarrow> Inr (pos, stream'))))"

definition isByteEncodable :: "int \<Rightarrow> bool" where
  "isByteEncodable v = (v \<ge> - 128 \<and> v \<le> 127)"

function encodeDeltaRunAsWords_loop :: "int list \<Rightarrow> nat \<Rightarrow> nat \<Rightarrow> nat \<times> nat" where
  "encodeDeltaRunAsWords_loop deltas pos runLength =
     (if pos < length deltas \<and> runLength < 64 then
        (let v = deltas ! pos in
         if v = 0 then (pos, runLength)
         else if isByteEncodable v \<and> pos + 1 < length deltas \<and> isByteEncodable (deltas ! (pos + 1))
         then (pos, runLength)
         else encodeDeltaRunAsWords_loop deltas (pos + 1) (runLength + 1))
      else (pos, runLength))"
  by pat_completeness auto
termination
  by (relation "measure (\<lambda>(deltas, pos, runLength). length deltas - pos)") auto

declare encodeDeltaRunAsWords_loop.simps [simp del]

definition encodeDeltaRunAsWords_' :: "int list \<Rightarrow> nat \<Rightarrow> byte list \<Rightarrow> error + (nat \<times> byte list)" where
  "encodeDeltaRunAsWords_' deltas offset stream =
     (case encodeDeltaRunAsWords_loop deltas offset 0 of
        (pos, runLength) \<Rightarrow>
          if \<not> (runLength \<ge> 1 \<and> runLength \<le> 64) then Inl AssertionError
          else (case bytechr (DELTAS_ARE_WORDS OR (int runLength - 1)) of
                  Inl e \<Rightarrow> Inl e
                | Inr h \<Rightarrow>
                    (case write_packed pack_h (map (\<lambda>i. deltas ! i) [offset..<pos]) (stream @ [h]) of
                       Inl e \<Rightarrow> Inl e
                     | Inr stream' \<Rightarrow> Inr (pos, stream'))))"

text \<open>One iteration of the loop of \<^verbatim>\<open>compileDeltaValues_\<close>: the run kind is chosen by the value at \<open>pos\<close>.\<close>

definition encodeDeltaRun :: "int list \<Rightarrow> nat \<Rightarrow> byte list \<Rightarrow> error + (nat \<times> byte list)" where
  "encodeDeltaRun deltas pos stream =
     (let v = deltas ! pos in
      if v = 0 then encodeDeltaRunAsZeroes_' deltas pos stream
      else if v \<ge> - 128 \<and> v \<le> 127 then encodeDeltaRunAsBytes_' deltas pos stream
      else encodeDeltaRunAsWords_' deltas pos stream)"

text \<open>
  Each run loop advances \<open>pos\<close> and \<open>runLength\<close> together, so a run encoder that
  passes its assertion returns a position beyond \<open>offset\<close>: the loop of
  \<^verbatim>\<open>compileDeltaValues_\<close> makes progress at every iteration.
\<close>


lemma encodeDeltaRunAsZeroes_loop_advance:
  "encodeDeltaRunAsZeroes_loop deltas pos runLength = (pos', runLength')
   \<Longrightarrow> pos' = pos + (runLength' - runLength) \<and> runLength \<le> runLength'"
proof (induction deltas pos runLength rule: encodeDeltaRunAsZeroes_loop.induct)
  case (1 deltas pos runLength)
  show ?case
  proof (cases "pos < length deltas \<and> runLength < 64 \<and> deltas ! pos = 0")
    case True
    then have "encodeDeltaRunAsZeroes_loop deltas (pos + 1) (runLength + 1) = (pos', runLength')"
      using "1.prems" by (subst (asm) encodeDeltaRunAsZeroes_loop.simps) simp
    from "1.IH" [OF True this] show ?thesis by auto
  next
    case False
    then show ?thesis
      using "1.prems" by (subst (asm) encodeDeltaRunAsZeroes_loop.simps) auto
  qed
qed

lemma encodeDeltaRunAsBytes_loop_advance:
  "encodeDeltaRunAsBytes_loop deltas pos runLength = (pos', runLength')
   \<Longrightarrow> pos' = pos + (runLength' - runLength) \<and> runLength \<le> runLength'"
proof (induction deltas pos runLength rule: encodeDeltaRunAsBytes_loop.induct)
  case (1 deltas pos runLength)
  show ?case
    using "1.prems" "1.IH"
    apply (subst (asm) encodeDeltaRunAsBytes_loop.simps)
    apply (auto simp: Let_def split: if_splits)
    done
qed

lemma encodeDeltaRunAsWords_loop_advance:
  "encodeDeltaRunAsWords_loop deltas pos runLength = (pos', runLength')
   \<Longrightarrow> pos' = pos + (runLength' - runLength) \<and> runLength \<le> runLength'"
proof (induction deltas pos runLength rule: encodeDeltaRunAsWords_loop.induct)
  case (1 deltas pos runLength)
  show ?case
    using "1.prems" "1.IH"
    apply (subst (asm) encodeDeltaRunAsWords_loop.simps)
    apply (auto simp: Let_def split: if_splits)
    done
qed


lemma encodeDeltaRun_progress:
  assumes "encodeDeltaRun deltas pos stream = Inr (pos', stream')"
  shows "pos < pos'"
proof -
  consider (z) "encodeDeltaRunAsZeroes_' deltas pos stream = Inr (pos', stream')"
    | (b) "encodeDeltaRunAsBytes_' deltas pos stream = Inr (pos', stream')"
    | (w) "encodeDeltaRunAsWords_' deltas pos stream = Inr (pos', stream')"
    using assms by (auto simp: encodeDeltaRun_def Let_def split: if_splits)
  then show ?thesis
  proof cases
    case z
    then show ?thesis
      by (auto simp: encodeDeltaRunAsZeroes_'_def split: prod.splits if_splits sum.splits
               dest!: encodeDeltaRunAsZeroes_loop_advance)
  next
    case b
    then show ?thesis
      by (auto simp: encodeDeltaRunAsBytes_'_def split: prod.splits if_splits sum.splits
               dest!: encodeDeltaRunAsBytes_loop_advance)
  next
    case w
    then show ?thesis
      by (auto simp: encodeDeltaRunAsWords_'_def split: prod.splits if_splits sum.splits
               dest!: encodeDeltaRunAsWords_loop_advance)
  qed
qed

function compileDeltaValues_loop :: "int list \<Rightarrow> nat \<Rightarrow> byte list \<Rightarrow> error + byte list" where
  "compileDeltaValues_loop deltas pos stream =
     (if pos < length deltas then
        (case encodeDeltaRun deltas pos stream of
           Inl e \<Rightarrow> Inl e
         | Inr (pos', stream') \<Rightarrow> compileDeltaValues_loop deltas pos' stream')
      else Inr stream)"
  by pat_completeness auto
termination
  by (relation "measure (\<lambda>(deltas, pos, stream). length deltas - pos)")
     (auto dest: encodeDeltaRun_progress)

declare compileDeltaValues_loop.simps [simp del]

definition compileDeltaValues_' :: "int list \<Rightarrow> error + byte list" where
  "compileDeltaValues_' deltas = compileDeltaValues_loop deltas 0 []"

section \<open>The delta decoder\<close>

text \<open>
  The loop of \<^verbatim>\<open>decompileDeltas_\<close> over \<open>(result, pos)\<close>. Reading
  \<^verbatim>\<open>data[pos]\<close> past the end raises IndexError; a payload cut short fails the
  assertion on the number of items read. Every run holds at least one value, so the
  loop ends.
\<close>

lemma numDeltasInRun_pos: "0 < nat ((byteord b AND DELTA_RUN_COUNT_MASK) + 1)"
  by (simp add: byteord_def DELTA_RUN_COUNT_MASK_def)

lemma numDeltasInRun_grows:
  "l < n \<Longrightarrow> n - (l + nat ((byteord b AND DELTA_RUN_COUNT_MASK) + 1)) < n - l"
  using numDeltasInRun_pos [of b] by linarith

function decompileDeltas_loop :: "nat \<Rightarrow> byte list \<Rightarrow> int list \<Rightarrow> nat \<Rightarrow> error + (int list \<times> nat)" where
  "decompileDeltas_loop numDeltas data result pos =
     (if length result < numDeltas then
        (if pos \<ge> length data then Inl IndexError
         else
           (let runHeader = byteord (data ! pos);
                pos1 = pos + 1;
                numDeltasInRun = nat ((runHeader AND DELTA_RUN_COUNT_MASK) + 1)
            in if (runHeader AND DELTAS_ARE_ZERO) \<noteq> 0
               then decompileDeltas_loop numDeltas data (result @ replicate numDeltasInRun 0) pos1
               else
                 (let tc = (if (runHeader AND DELTAS_ARE_WORDS) \<noteq> 0 then TC_h else TC_b);
                      deltasSize = (if (runHeader AND DELTAS_ARE_WORDS) \<noteq> 0
                                    then numDeltasInRun * 2 else numDeltasInRun)
                  in case array_fromstring tc (slice data pos1 deltasSize) of
                       Inl e \<Rightarrow> Inl e
                     | Inr deltas \<Rightarrow>
                         if length deltas \<noteq> numDeltasInRun then Inl AssertionError
                         else decompileDeltas_loop numDeltas data (result @ deltas) (pos1 + deltasSize))))
      else Inr (result, pos))"
  by pat_completeness auto
termination
  by (relation "measure (\<lambda>(numDeltas, data, result, pos). numDeltas - length result)")
     (auto simp: numDeltasInRun_grows)

declare decompileDeltas_loop.simps [simp del]

definition decompileDeltas_' :: "nat \<Rightarrow> byte list \<Rightarrow> nat \<Rightarrow> error + (int list \<times> nat)" where
  "decompileDeltas_' numDeltas data offset =
     (case decompileDeltas_loop numDeltas data [] offset of
        Inl e \<Rightarrow> Inl e
      | Inr (result, pos) \<Rightarrow>
          if length result \<noteq> numDeltas then Inl AssertionError else Inr (result, pos))"

section \<open>The point-number encoder\<close>

text \<open>
  One delta of a run of \<^verbatim>\<open>compilePoints\<close>: a single byte in a byte run, else the
  high and the low byte. \<^verbatim>\<open>bytechr\<close> raises on a delta that does not fit.
\<close>

definition write_delta :: "bool \<Rightarrow> int \<Rightarrow> error + byte list" where
  "write_delta useByteEncoding delta =
     (if useByteEncoding
      then (case bytechr delta of Inl e \<Rightarrow> Inl e | Inr b \<Rightarrow> Inr [b])
      else (case bytechr (drop_bit 8 delta) of
              Inl e \<Rightarrow> Inl e
            | Inr hi \<Rightarrow> (case bytechr (delta AND 0xff) of Inl e \<Rightarrow> Inl e | Inr lo \<Rightarrow> Inr [hi, lo])))"

definition MAX_RUN_LENGTH :: nat where "MAX_RUN_LENGTH = 127"

text \<open>
  The inner loop of \<^verbatim>\<open>compilePoints\<close> over
  \<open>(pos, lastValue, runLength, useByteEncoding, run)\<close>; \<open>useByteEncoding\<close> is
  \<open>None\<close> until the first delta of the run has chosen the encoding.
\<close>

function compilePoints_run ::
  "int list \<Rightarrow> nat \<Rightarrow> int \<Rightarrow> nat \<Rightarrow> bool option \<Rightarrow> byte list
   \<Rightarrow> error + (nat \<times> int \<times> nat \<times> bool option \<times> byte list)" where
  "compilePoints_run points pos lastValue runLength useByteEncoding run =
     (if pos < length points \<and> runLength \<le> MAX_RUN_LENGTH then
        (let curValue = points ! pos;
             delta = curValue - lastValue;
             useByteEncoding' = (case useByteEncoding of
                                   None \<Rightarrow> 0 \<le> delta \<and> delta \<le> 0xff
                                 | Some b \<Rightarrow> b)
         in if useByteEncoding' \<and> (delta > 0xff \<or> delta < 0)
            then Inr (pos, lastValue, runLength, Some useByteEncoding', run)
            else (case write_delta useByteEncoding' delta of
                    Inl e \<Rightarrow> Inl e
                  | Inr bs \<Rightarrow>
                      compilePoints_run points (pos + 1) curValue (runLength + 1)
                        (Some useByteEncoding') (run @ bs)))
      else Inr (pos, lastValue, runLength, useByteEncoding, run))"
  by pat_completeness auto
termination
  by (relation "measure (\<lambda>(points, pos, lastValue, runLength, useByteEncoding, run). length points - pos)")
     auto

declare compilePoints_run.simps [simp del]

lemma compilePoints_run_mono:
  "compilePoints_run points pos lastValue runLength useByteEncoding run
     = Inr (pos', lastValue', runLength', useByteEncoding', run')
   \<Longrightarrow> pos \<le> pos'"
proof (induction points pos lastValue runLength useByteEncoding run
       rule: compilePoints_run.induct)
  case (1 points pos lastValue runLength useByteEncoding run)
  show ?case
    using "1.prems" "1.IH"
    apply (subst (asm) compilePoints_run.simps)
    apply (auto simp: Let_def split: if_splits sum.splits)
    apply fastforce+
    done
qed

lemma compilePoints_run_progress:
  assumes "compilePoints_run points pos lastValue 0 None []
             = Inr (pos', lastValue', runLength', useByteEncoding', run')"
      and "pos < length points"
  shows "pos < pos'"
  using assms
  apply (subst (asm) compilePoints_run.simps)
  apply (auto simp: Let_def MAX_RUN_LENGTH_def split: if_splits sum.splits
              dest!: compilePoints_run_mono)
  done

text \<open>The outer loop: one run per iteration, its header written before its deltas.\<close>

function compilePoints_loop :: "int list \<Rightarrow> nat \<Rightarrow> int \<Rightarrow> byte list \<Rightarrow> error + byte list" where
  "compilePoints_loop points pos lastValue result =
     (if pos < length points then
        (case compilePoints_run points pos lastValue 0 None [] of
           Inl e \<Rightarrow> Inl e
         | Inr (pos', lastValue', runLength, useByteEncoding, run) \<Rightarrow>
             (case (if useByteEncoding = Some True
                    then bytechr (int runLength - 1)
                    else bytechr ((int runLength - 1) OR POINTS_ARE_WORDS)) of
                Inl e \<Rightarrow> Inl e
              | Inr runHeader \<Rightarrow> compilePoints_loop points pos' lastValue' (result @ [runHeader] @ run)))
      else Inr result)"
  by pat_completeness auto
termination
  by (relation "measure (\<lambda>(points, pos, lastValue, result). length points - pos)")
     (auto dest: compilePoints_run_progress)

declare compilePoints_loop.simps [simp del]

text \<open>
  \<^verbatim>\<open>compilePoints(points, numPointsInGlyph)\<close>. The set is sorted into a list; the
  count takes one byte below \<open>0x80\<close>, else two.
\<close>

definition compilePoints :: "int set \<Rightarrow> nat \<Rightarrow> error + byte list" where
  "compilePoints points numPointsInGlyph =
     (if card points = numPointsInGlyph then Inr [0]
      else
        (let points = sorted_list_of_set points;
             numPoints = int (length points)
         in case (if numPoints < 0x80
                  then (case bytechr numPoints of Inl e \<Rightarrow> Inl e | Inr b \<Rightarrow> Inr [b])
                  else (case bytechr (drop_bit 8 numPoints OR 0x80) of
                          Inl e \<Rightarrow> Inl e
                        | Inr b1 \<Rightarrow> (case bytechr (numPoints AND 0xff) of
                                       Inl e \<Rightarrow> Inl e
                                     | Inr b2 \<Rightarrow> Inr [b1, b2]))) of
              Inl e \<Rightarrow> Inl e
            | Inr result \<Rightarrow> compilePoints_loop points 0 0 result))"

section \<open>The point-number decoder\<close>

text \<open>
  The loop of \<^verbatim>\<open>decompilePoints_\<close> over \<open>(result, pos)\<close>; the items of a run are
  unsigned bytes or unsigned 16-bit values. Every run holds at least one point.
\<close>

lemma numPointsInRun_grows:
  "l < n \<Longrightarrow> n - (l + nat ((byteord b AND POINT_RUN_COUNT_MASK) + 1)) < n - l"
proof -
  have "0 \<le> byteord b AND POINT_RUN_COUNT_MASK"
    by (simp add: byteord_def POINT_RUN_COUNT_MASK_def)
  then show "l < n \<Longrightarrow> n - (l + nat ((byteord b AND POINT_RUN_COUNT_MASK) + 1)) < n - l"
    by linarith
qed

function decompilePoints_loop :: "nat \<Rightarrow> byte list \<Rightarrow> int list \<Rightarrow> nat \<Rightarrow> error + (int list \<times> nat)" where
  "decompilePoints_loop numPointsInData data result pos =
     (if length result < numPointsInData then
        (if pos \<ge> length data then Inl IndexError
         else
           (let runHeader = byteord (data ! pos);
                pos1 = pos + 1;
                numPointsInRun = nat ((runHeader AND POINT_RUN_COUNT_MASK) + 1);
                tc = (if (runHeader AND POINTS_ARE_WORDS) \<noteq> 0 then TC_H else TC_B);
                pointsSize = (if (runHeader AND POINTS_ARE_WORDS) \<noteq> 0
                              then numPointsInRun * 2 else numPointsInRun)
            in case array_fromstring tc (slice data pos1 pointsSize) of
                 Inl e \<Rightarrow> Inl e
               | Inr points \<Rightarrow>
                   if length points \<noteq> numPointsInRun then Inl AssertionError
                   else decompilePoints_loop numPointsInData data (result @ points) (pos1 + pointsSize)))
      else Inr (result, pos))"
  by pat_completeness auto
termination
  by (relation "measure (\<lambda>(numPointsInData, data, result, pos). numPointsInData - length result)")
     (auto simp: numPointsInRun_grows)

declare decompilePoints_loop.simps [simp del]

text \<open>\<^verbatim>\<open>for delta in result: current += delta; absolute.append(current)\<close>.\<close>

fun absolute_from :: "int \<Rightarrow> int list \<Rightarrow> int list" where
  "absolute_from current [] = []"
| "absolute_from current (delta # rest) = (current + delta) # absolute_from (current + delta) rest"

text \<open>
  The warning that \<^verbatim>\<open>decompilePoints_\<close> logs: the set of the points out of range
  and the table tag. The wording of the message is not modelled.
\<close>

datatype warning = PointOutOfRange "int set" string

text \<open>
  The head of \<^verbatim>\<open>decompilePoints_\<close>: the number of points in the data, in one byte,
  or in two when the first has its high bit set, and the position after it.
\<close>

definition readNumPointsInData :: "byte list \<Rightarrow> nat \<Rightarrow> error + (int \<times> nat)" where
  "readNumPointsInData data offset =
     (if offset \<ge> length data then Inl IndexError
      else
        (let numPointsInData = byteord (data ! offset);
             pos = offset + 1
         in if (numPointsInData AND POINTS_ARE_WORDS) \<noteq> 0
            then (if pos \<ge> length data then Inl IndexError
                  else Inr (push_bit 8 (numPointsInData AND POINT_RUN_COUNT_MASK)
                              OR byteord (data ! pos), pos + 1))
            else Inr (numPointsInData, pos)))"

text \<open>
  \<^verbatim>\<open>decompilePoints_(numPoints, data, offset, tableTag)\<close> returns the points and
  the new offset; the model returns the logged warnings beside them.
\<close>

definition decompilePoints_' ::
  "nat \<Rightarrow> byte list \<Rightarrow> nat \<Rightarrow> string \<Rightarrow> error + ((int list \<times> nat) \<times> warning list)" where
  "decompilePoints_' numPoints data offset tableTag =
     (if tableTag \<notin> {''cvar'', ''gvar''} then Inl AssertionError
      else
        (case readNumPointsInData data offset of
           Inl e \<Rightarrow> Inl e
         | Inr (numPointsInData, pos) \<Rightarrow>
             if numPointsInData = 0 then Inr ((map int [0..<numPoints], pos), [])
             else (case decompilePoints_loop (nat numPointsInData) data [] pos of
                     Inl e \<Rightarrow> Inl e
                   | Inr (result, pos) \<Rightarrow>
                       (let result = absolute_from 0 result;
                            badPoints = set (filter (\<lambda>p. p < 0 \<or> p \<ge> int numPoints) result)
                        in Inr ((result, pos),
                                if badPoints \<noteq> {} then [PointOutOfRange badPoints tableTag]
                                else [])))))"

section \<open>The TupleVariation value and its compilation\<close>

text \<open>
  A delta of the coordinate vector is a pair \<open>(x, y)\<close> in a \<^verbatim>\<open>gvar\<close> table and a
  single integer in a \<^verbatim>\<open>cvar\<close> table; a position that is not set holds \<open>None\<close>.
  The dictionary \<^verbatim>\<open>axes\<close> maps an axis tag to \<open>(minValue, value, maxValue)\<close>. The type
  \<open>'f\<close> stands for Python's floats: the code compares them, takes \<open>min\<close> and
  \<open>max\<close> with \<open>0.0\<close>, and hands them to \<^verbatim>\<open>floatToFixed\<close>.
\<close>

datatype delta = XY int int | CVT int

record 'f TupleVariation =
  axes :: "string \<rightharpoonup> 'f \<times> 'f \<times> 'f"
  coordinates :: "delta option list"

text \<open>\<^verbatim>\<open>getUsedPoints\<close>: the indices of the coordinates that are set.\<close>

definition getUsedPoints :: "'f TupleVariation \<Rightarrow> int set" where
  "getUsedPoints tv =
     set (map int (filter (\<lambda>i. coordinates tv ! i \<noteq> None) [0..<length (coordinates tv)]))"

text \<open>\<^verbatim>\<open>self.axes.get(axis, (0.0, 0.0, 0.0))\<close>.\<close>

definition axes_get :: "(string \<rightharpoonup> 'f \<times> 'f \<times> 'f) \<Rightarrow> string \<Rightarrow> ('f::zero) \<times> 'f \<times> 'f" where
  "axes_get ax axis = (case ax axis of None \<Rightarrow> (0, 0, 0) | Some t \<Rightarrow> t)"

text \<open>
  \<^verbatim>\<open>compileCoord\<close> packs the peak of every axis, in the order of \<open>axisTags\<close>.
  \<^verbatim>\<open>floatToFixed\<close> lives in \<^verbatim>\<open>fontTools.misc.fixedTools\<close>, outside these sources, and
  is a parameter of the model.
\<close>

definition compileCoord ::
  "('f \<Rightarrow> nat \<Rightarrow> int) \<Rightarrow> ('f::zero) TupleVariation \<Rightarrow> string list \<Rightarrow> error + byte list" where
  "compileCoord floatToFixed tv axisTags =
     write_packed pack_h
       (map (\<lambda>axis. case axes_get (axes tv) axis of (_, v, _) \<Rightarrow> floatToFixed v 14) axisTags) []"

text \<open>
  \<^verbatim>\<open>compileIntermediateCoord\<close>: \<open>None\<close> unless some axis has a minimum or a maximum
  other than the default \<open>min(value, 0.0)\<close>, \<open>max(value, 0.0)\<close>; else the minima of all
  axes followed by the maxima. The second loop packs the minimum and the maximum of one
  axis after the other.
\<close>

fun intermediate_coords ::
  "(('f::zero) \<Rightarrow> nat \<Rightarrow> int) \<Rightarrow> (string \<rightharpoonup> 'f \<times> 'f \<times> 'f) \<Rightarrow> string list \<Rightarrow> byte list \<Rightarrow> byte list
   \<Rightarrow> error + (byte list \<times> byte list)" where
  "intermediate_coords floatToFixed ax [] minCoords maxCoords = Inr (minCoords, maxCoords)"
| "intermediate_coords floatToFixed ax (axis # rest) minCoords maxCoords =
     (case axes_get ax axis of
        (minValue, v, maxValue) \<Rightarrow>
          (case pack_h (floatToFixed minValue 14) of
             Inl e \<Rightarrow> Inl e
           | Inr a \<Rightarrow>
               (case pack_h (floatToFixed maxValue 14) of
                  Inl e \<Rightarrow> Inl e
                | Inr b \<Rightarrow> intermediate_coords floatToFixed ax rest (minCoords @ a) (maxCoords @ b))))"

definition compileIntermediateCoord ::
  "('f \<Rightarrow> nat \<Rightarrow> int) \<Rightarrow> ('f::{zero,linorder}) TupleVariation \<Rightarrow> string list
   \<Rightarrow> error + byte list option" where
  "compileIntermediateCoord floatToFixed tv axisTags =
     (let needed =
            list_ex (\<lambda>axis. case axes_get (axes tv) axis of
                              (minValue, v, maxValue) \<Rightarrow>
                                minValue \<noteq> min v 0 \<or> maxValue \<noteq> max v 0) axisTags
      in if \<not> needed then Inr None
         else (case intermediate_coords floatToFixed (axes tv) axisTags [] [] of
                 Inl e \<Rightarrow> Inl e
               | Inr (minCoords, maxCoords) \<Rightarrow> Inr (Some (minCoords @ maxCoords))))"

text \<open>
  \<^verbatim>\<open>self.coordinates[p]\<close> on a list of \<open>n\<close> items: the indices \<open>-n, ..., -1\<close>
  read from the end, and any index outside \<open>-n, ..., n - 1\<close> raises IndexError.
\<close>

definition py_index :: "'a list \<Rightarrow> int \<Rightarrow> error + 'a" where
  "py_index xs i =
     (if 0 \<le> i \<and> i < int (length xs) then Inr (xs ! nat i)
      else if i < 0 \<and> - int (length xs) \<le> i then Inr (xs ! nat (int (length xs) + i))
      else Inl IndexError)"

text \<open>
  \<^verbatim>\<open>compileDeltas\<close>: the \<open>x\<close> and the \<open>y\<close> of the coordinates at the sorted points,
  each sequence compiled on its own. Subscripting the integer of a \<^verbatim>\<open>cvar\<close> delta
  raises TypeError.
\<close>

fun compileDeltas_loop ::
  "delta option list \<Rightarrow> int list \<Rightarrow> int list \<Rightarrow> int list \<Rightarrow> error + (int list \<times> int list)" where
  "compileDeltas_loop coords [] deltaX deltaY = Inr (deltaX, deltaY)"
| "compileDeltas_loop coords (p # ps) deltaX deltaY =
     (case py_index coords p of
        Inl e \<Rightarrow> Inl e
      | Inr None \<Rightarrow> compileDeltas_loop coords ps deltaX deltaY
      | Inr (Some (XY x y)) \<Rightarrow> compileDeltas_loop coords ps (deltaX @ [x]) (deltaY @ [y])
      | Inr (Some (CVT c)) \<Rightarrow> Inl TypeError)"

definition compileDeltas :: "'f TupleVariation \<Rightarrow> int set \<Rightarrow> error + byte list" where
  "compileDeltas tv points =
     (case compileDeltas_loop (coordinates tv) (sorted_list_of_set points) [] [] of
        Inl e \<Rightarrow> Inl e
      | Inr (deltaX, deltaY) \<Rightarrow>
          (case compileDeltaValues_' deltaX of
             Inl e \<Rightarrow> Inl e
           | Inr bx \<Rightarrow>
               (case compileDeltaValues_' deltaY of
                  Inl e \<Rightarrow> Inl e
                | Inr by \<Rightarrow> Inr (bx @ by))))"

text \<open>\<^verbatim>\<open>struct.pack('>HH', a, b)\<close>: two unsigned 16-bit values, big-endian.\<close>

definition pack_HH :: "int \<Rightarrow> int \<Rightarrow> error + byte list" where
  "pack_HH a b =
     (if 0 \<le> a \<and> a \<le> 65535 \<and> 0 \<le> b \<and> b \<le> 65535
      then Inr [word_of_int (a div 256), word_of_int (a mod 256),
                word_of_int (b div 256), word_of_int (b mod 256)]
      else Inl StructError)"

text \<open>
  \<^verbatim>\<open>compile(axisTags, sharedCoordIndices, sharedPoints)\<close> returns the header with the
  coordinate bytes, and the auxiliary data. \<open>sharedCoordIndices\<close> is a dictionary from
  compiled peak bytes to an index; \<open>sharedPoints\<close> is \<open>None\<close> or a set of points.
\<close>

definition compile ::
  "('f \<Rightarrow> nat \<Rightarrow> int) \<Rightarrow> ('f::{zero,linorder}) TupleVariation \<Rightarrow> string list
   \<Rightarrow> (byte list \<rightharpoonup> int) \<Rightarrow> int set option \<Rightarrow> error + (byte list \<times> byte list)" where
  "compile floatToFixed tv axisTags sharedCoordIndices sharedPoints =
     (if \<not> dom (axes tv) \<subseteq> set axisTags then Inl AssertionError
      else
        (case compileCoord floatToFixed tv axisTags of
           Inl e \<Rightarrow> Inl e
         | Inr coord \<Rightarrow>
             (let (flags, tupleData) =
                    (case sharedCoordIndices coord of
                       Some idx \<Rightarrow> (idx, [])
                     | None \<Rightarrow> (EMBEDDED_PEAK_TUPLE, coord))
              in case compileIntermediateCoord floatToFixed tv axisTags of
                   Inl e \<Rightarrow> Inl e
                 | Inr intermediateCoord \<Rightarrow>
                     (let (flags, tupleData) =
                            (case intermediateCoord of
                               None \<Rightarrow> (flags, tupleData)
                             | Some ic \<Rightarrow> (flags OR INTERMEDIATE_REGION, tupleData @ ic))
                      in case (case sharedPoints of
                                 Some sp \<Rightarrow>
                                   (case compileDeltas tv sp of
                                      Inl e \<Rightarrow> Inl e
                                    | Inr ds \<Rightarrow> Inr (flags, ds))
                               | None \<Rightarrow>
                                   (let flags = flags OR PRIVATE_POINT_NUMBERS;
                                        points = getUsedPoints tv;
                                        numPointsInGlyph = length (coordinates tv)
                                    in case compilePoints points numPointsInGlyph of
                                         Inl e \<Rightarrow> Inl e
                                       | Inr ps \<Rightarrow>
                                           (case compileDeltas tv points of
                                              Inl e \<Rightarrow> Inl e
                                            | Inr ds \<Rightarrow> Inr (flags, ps @ ds)))) of
                           Inl e \<Rightarrow> Inl e
                         | Inr (flags, auxData) \<Rightarrow>
                             (case pack_HH (int (length auxData)) flags of
                                Inl e \<Rightarrow> Inl e
                              | Inr hdr \<Rightarrow> Inr (hdr @ tupleData, auxData))))))"
section \<open>Bitwise arithmetic on header bytes\<close>

text \<open>
  The masks and flags of the run headers, as arithmetic: a mask is a remainder, a
  flag test is the parity of a quotient, and setting a flag on a small value adds it.
\<close>

lemma or_pow2_int:
  fixes x :: int
  assumes "0 \<le> x" and "x < 2 ^ n"
  shows "2 ^ n OR x = 2 ^ n + x"
proof -
  have "concat_bit n x 1 = take_bit n x + push_bit n 1"
    by (rule concat_bit_eq)
  moreover have "concat_bit n x 1 = take_bit n x OR push_bit n 1"
    by (simp add: concat_bit_def)
  moreover have "take_bit n x = x"
    using assms by (simp add: take_bit_int_eq_self)
  ultimately show ?thesis
    by (simp add: push_bit_eq_mult ac_simps)
qed

lemma and_mask_int:
  fixes x :: int
  shows "x AND (2 ^ n - 1) = x mod 2 ^ n"
  by (simp add: take_bit_eq_mod [symmetric] take_bit_eq_mask mask_eq_exp_minus_1)

lemma and_pow2_int:
  fixes x :: int
  shows "(x AND 2 ^ n \<noteq> 0) = odd (x div 2 ^ n)"
  by (simp add: and_exp_eq_0_iff_not_bit bit_iff_odd)

lemma and_0x80: "((x::int) AND 0x80 \<noteq> 0) = odd (x div 128)"
  using and_pow2_int [of x 7] by simp
lemma and_0x40: "((x::int) AND 0x40 \<noteq> 0) = odd (x div 64)"
  using and_pow2_int [of x 6] by simp
lemma and_0x7f: "(x::int) AND 0x7f = x mod 128"
  using and_mask_int [of x 7] by simp
lemma and_0x3f: "(x::int) AND 0x3f = x mod 64"
  using and_mask_int [of x 6] by simp
lemma and_0xff: "(x::int) AND 0xff = x mod 256"
  using and_mask_int [of x 8] by simp
lemma or_0x80: "0 \<le> (x::int) \<Longrightarrow> x < 128 \<Longrightarrow> 0x80 OR x = 128 + x"
  using or_pow2_int [of x 7] by simp
lemma or_0x40: "0 \<le> (x::int) \<Longrightarrow> x < 64 \<Longrightarrow> 0x40 OR x = 64 + x"
  using or_pow2_int [of x 6] by simp

lemma uint_byte_of_int: "0 \<le> n \<Longrightarrow> n \<le> 255 \<Longrightarrow> uint (word_of_int n :: byte) = n"
  by (simp add: uint_word_of_int)

lemma sint_byte_of_int: "- 128 \<le> n \<Longrightarrow> n \<le> 127 \<Longrightarrow> sint (word_of_int n :: byte) = n"
  by (simp add: int_word_sint)

section \<open>Properties of the header size\<close>

lemma and_0x8000: "((flags::int) AND 0x8000 \<noteq> 0) = bit flags 15"
  using and_exp_eq_0_iff_not_bit [of flags 15] by simp

lemma and_0x4000: "((flags::int) AND 0x4000 \<noteq> 0) = bit flags 14"
  using and_exp_eq_0_iff_not_bit [of flags 14] by simp

text \<open>
  Claim C9 (header size law). For every flags word and every axis count,
  \<^verbatim>\<open>getTupleSize_(flags, axisCount)\<close> is 4, plus \<open>2 * axisCount\<close> when bit
  \<open>0x8000\<close> (bit 15, EMBEDDED_PEAK_TUPLE) of the flags is set, plus \<open>4 * axisCount\<close>
  when bit \<open>0x4000\<close> (bit 14, INTERMEDIATE_REGION) is set.
\<close>

theorem getTupleSize_header_size_law:
  "getTupleSize_' flags axisCount =
     4 + (if bit flags 15 then 2 * axisCount else 0) + (if bit flags 14 then 4 * axisCount else 0)"
  by (simp add: getTupleSize_'_def Let_def EMBEDDED_PEAK_TUPLE_def INTERMEDIATE_REGION_def
        and_0x8000 and_0x4000)

section \<open>Properties of the delta encoder\<close>

lemma zeroes_loop_replicate:
  "pos \<le> k \<Longrightarrow> runLength + (k - pos) \<le> 64 \<Longrightarrow>
   encodeDeltaRunAsZeroes_loop (replicate k 0) pos runLength = (k, runLength + (k - pos))"
proof (induction "k - pos" arbitrary: pos runLength)
  case 0
  then show ?case by (subst encodeDeltaRunAsZeroes_loop.simps) simp
next
  case (Suc d)
  then have "encodeDeltaRunAsZeroes_loop (replicate k 0) (pos + 1) (runLength + 1)
             = (k, (runLength + 1) + (k - (pos + 1)))"
    by (intro Suc.hyps(1)) auto
  with Suc.hyps(2) Suc.prems show ?case
    by (subst encodeDeltaRunAsZeroes_loop.simps) auto
qed

text \<open>
  Claim C5 (zero compression bound), as amended. For every all-zero delta sequence of
  length \<open>k\<close> with \<open>1 \<le> k \<le> 64\<close>, \<^verbatim>\<open>compileDeltaValues_\<close> returns exactly one
  byte, \<open>0x80 OR (k - 1)\<close>.
\<close>

theorem zero_run_single_byte:
  assumes "1 \<le> k" and "k \<le> 64"
  shows "compileDeltaValues_' (replicate k 0) = Inr [word_of_int (0x80 OR (int k - 1))]"
proof -
  have loop: "encodeDeltaRunAsZeroes_loop (replicate k 0) 0 0 = (k, k)"
    using zeroes_loop_replicate [of 0 k 0] assms by simp
  have hdr: "0x80 OR (int k - 1) = 128 + (int k - 1)"
    using assms by (intro or_0x80) auto
  have run: "encodeDeltaRun (replicate k 0) 0 [] = Inr (k, [word_of_int (0x80 OR (int k - 1))])"
    using assms
    by (simp add: encodeDeltaRun_def encodeDeltaRunAsZeroes_'_def loop bytechr_def
          DELTAS_ARE_ZERO_def hdr)
  show ?thesis
    unfolding compileDeltaValues_'_def
    using assms
    by (subst compileDeltaValues_loop.simps, simp add: run)
       (subst compileDeltaValues_loop.simps, simp)
qed


text \<open>The amended law at \<open>k = 3\<close>: three zeroes are the single byte \<open>0x82\<close>.\<close>

theorem zero_run_single_byte_witness:
  "(1::nat) \<le> 3 \<and> (3::nat) \<le> 64 \<and> compileDeltaValues_' [0, 0, 0] = Inr [0x82]"
  using zero_run_single_byte [of 3] by (simp add: numeral_3_eq_3)


text \<open>
  The law as first stated also covers \<open>k = 0\<close>. There the loop of
  \<^verbatim>\<open>compileDeltaValues_\<close> never runs and the output is the empty string: no byte at
  all, and not the byte \<open>0x80 OR (0 - 1)\<close>.
\<close>

theorem zero_run_empty_counterexample:
  "compileDeltaValues_' (replicate 0 0) = Inr []
   \<and> compileDeltaValues_' (replicate 0 0) \<noteq> Inr [word_of_int (0x80 OR (int 0 - 1))]"
  by (simp add: compileDeltaValues_'_def compileDeltaValues_loop.simps)

text \<open>
  Claim C6 (interior-zero heuristic). At an in-range value inside the bounds of a byte
  run that is not yet 64 long, the loop of \<^verbatim>\<open>encodeDeltaRunAsBytes_\<close> stops exactly
  when the value is 0 and the next value exists and is 0 as well; so a single interior
  zero stays in the run. The deltas \<open>[15, 15, 0, 15, 15]\<close> compile to
  \<open>04 0F 0F 00 0F 0F\<close>, and \<open>[15, 15, 0, 0, 15, 15]\<close> to \<open>01 0F 0F 81 01 0F 0F\<close>.
\<close>

theorem byte_run_interior_zero:
  "(pos < length deltas \<and> runLength < 64 \<and> - 128 \<le> deltas ! pos \<and> deltas ! pos \<le> 127 \<longrightarrow>
      (encodeDeltaRunAsBytes_loop deltas pos runLength = (pos, runLength))
        = (deltas ! pos = 0 \<and> pos + 1 < length deltas \<and> deltas ! (pos + 1) = 0))
   \<and> compileDeltaValues_' [15, 15, 0, 15, 15] = Inr [0x04, 0x0F, 0x0F, 0x00, 0x0F, 0x0F]
   \<and> compileDeltaValues_' [15, 15, 0, 0, 15, 15] = Inr [0x01, 0x0F, 0x0F, 0x81, 0x01, 0x0F, 0x0F]"
proof (intro conjI impI)
  assume a: "pos < length deltas \<and> runLength < 64 \<and> - 128 \<le> deltas ! pos \<and> deltas ! pos \<le> 127"
  have moved: "encodeDeltaRunAsBytes_loop deltas (pos + 1) (runLength + 1) \<noteq> (pos, runLength)"
    using encodeDeltaRunAsBytes_loop_advance [of deltas "pos + 1" "runLength + 1" pos runLength]
    by auto
  show "(encodeDeltaRunAsBytes_loop deltas pos runLength = (pos, runLength))
        = (deltas ! pos = 0 \<and> pos + 1 < length deltas \<and> deltas ! (pos + 1) = 0)"
    using a moved by (subst encodeDeltaRunAsBytes_loop.simps) (auto simp: Let_def)
next
  show "compileDeltaValues_' [15, 15, 0, 15, 15] = Inr [0x04, 0x0F, 0x0F, 0x00, 0x0F, 0x0F]"
    by code_simp
next
  show "compileDeltaValues_' [15, 15, 0, 0, 15, 15] = Inr [0x01, 0x0F, 0x0F, 0x81, 0x01, 0x0F, 0x0F]"
    by code_simp
qed

text \<open>
  The rule at the third value of both sequences: the run stops at the first of two
  zeroes, and goes on over a single zero.
\<close>

theorem byte_run_interior_zero_witness:
  "encodeDeltaRunAsBytes_loop [15, 15, 0, 0, 15, 15] 2 2 = (2, 2)
   \<and> encodeDeltaRunAsBytes_loop [15, 15, 0, 15, 15] 2 2 \<noteq> (2, 2)"
  using byte_run_interior_zero [of 2 "[15, 15, 0, 0, 15, 15]" 2]
        byte_run_interior_zero [of 2 "[15, 15, 0, 15, 15]" 2]
  by simp

section \<open>Properties of the delta decoder\<close>

text \<open>
  One iteration of the loop of \<^verbatim>\<open>decompileDeltas_\<close> at a run header with bit
  \<open>0x80\<close> set: the zeroes are appended and the position moves past the header only.
\<close>

lemma decompileDeltas_zero_run_step:
  assumes "pos < length data" and "length result < numDeltas"
      and "byteord (data ! pos) AND DELTAS_ARE_ZERO \<noteq> 0"
  shows "decompileDeltas_loop numDeltas data result pos =
         decompileDeltas_loop numDeltas data
           (result @ replicate (nat ((byteord (data ! pos) AND 0x3F) + 1)) 0) (pos + 1)"
  using assms
  by (subst decompileDeltas_loop.simps) (simp add: Let_def DELTA_RUN_COUNT_MASK_def)

lemma decompileDeltas_zero_run_last:
  assumes "pos < length data" and "length result < numDeltas"
      and "byteord (data ! pos) AND DELTAS_ARE_ZERO \<noteq> 0"
      and "numDeltas \<le> length result + nat ((byteord (data ! pos) AND 0x3F) + 1)"
  shows "decompileDeltas_loop numDeltas data result pos =
         Inr (result @ replicate (nat ((byteord (data ! pos) AND 0x3F) + 1)) 0, pos + 1)"
proof -
  let ?n = "nat ((byteord (data ! pos) AND 0x3F) + 1)"
  have "decompileDeltas_loop numDeltas data result pos =
        decompileDeltas_loop numDeltas data (result @ replicate ?n 0) (pos + 1)"
    using assms(1-3) by (rule decompileDeltas_zero_run_step)
  also have "\<dots> = Inr (result @ replicate ?n 0, pos + 1)"
    using assms(4) by (subst decompileDeltas_loop.simps) simp
  finally show ?thesis .
qed

text \<open>
  Decoding more values than a successful decoding did goes through the same runs first:
  it arrives at the result and at the position where the shorter decoding stopped.
\<close>

lemma decompileDeltas_loop_extend:
  "decompileDeltas_loop m data result pos = Inr (ds, p) \<Longrightarrow> length ds = m \<Longrightarrow> m \<le> N
   \<Longrightarrow> decompileDeltas_loop N data result pos = decompileDeltas_loop N data ds p"
proof (induction m data result pos rule: decompileDeltas_loop.induct)
  case (1 numDeltas data result pos)
  show ?case
  proof (cases "length result < numDeltas")
    case False
    then have "ds = result" "p = pos"
      using "1.prems"(1) by (subst (asm) decompileDeltas_loop.simps, simp)+
    then show ?thesis by simp
  next
    case True
    then have lt: "length result < N" using "1.prems"(3) by simp
    show ?thesis
      using "1.prems" True lt "1.IH"
      apply (subst (asm) decompileDeltas_loop.simps)
      apply (subst decompileDeltas_loop.simps)
      apply (auto simp: Let_def split: if_splits sum.splits)
      done
  qed
qed

lemma decompileDeltas_ok:
  "decompileDeltas_' m data offset = Inr (ds, p)
   \<longleftrightarrow> decompileDeltas_loop m data [] offset = Inr (ds, p) \<and> length ds = m"
  by (auto simp: decompileDeltas_'_def split: sum.splits if_splits)

text \<open>
  Claim C7 (zero-flag precedence). At a run header with bit \<open>0x80\<close> set, whatever bit
  \<open>0x40\<close> is and whatever bytes follow the header, \<^verbatim>\<open>decompileDeltas_\<close> appends
  \<open>(header AND 0x3F) + 1\<close> zeroes to what it has decoded and consumes the header byte
  only:
  \<^item> the loop goes on from the result extended by these zeroes, at the byte right after
    the header;
  \<^item> when the zeroes reach the requested count, the loop returns the result extended by
    them, with the position right after the header;
  \<^item> when the first \<open>m\<close> values of a stream decode to \<open>ds\<close> and end at position \<open>p\<close>,
    and the header at \<open>p\<close> has bit \<open>0x80\<close> set and stands for \<open>n\<close> values, then the
    first \<open>m + n\<close> values decode to \<open>ds\<close> followed by \<open>n\<close> zeroes and end at \<open>p + 1\<close>.
\<close>

theorem zero_flag_precedence:
  "(pos < length data \<and> length result < numDeltas
      \<and> byteord (data ! pos) AND DELTAS_ARE_ZERO \<noteq> 0 \<longrightarrow>
      decompileDeltas_loop numDeltas data result pos =
      decompileDeltas_loop numDeltas data
        (result @ replicate (nat ((byteord (data ! pos) AND 0x3F) + 1)) 0) (pos + 1))
   \<and> (pos < length data \<and> length result < numDeltas
      \<and> byteord (data ! pos) AND DELTAS_ARE_ZERO \<noteq> 0
      \<and> numDeltas \<le> length result + nat ((byteord (data ! pos) AND 0x3F) + 1) \<longrightarrow>
      decompileDeltas_loop numDeltas data result pos =
      Inr (result @ replicate (nat ((byteord (data ! pos) AND 0x3F) + 1)) 0, pos + 1))
   \<and> (decompileDeltas_' m data offset = Inr (ds, p) \<and> p < length data
      \<and> byteord (data ! p) AND DELTAS_ARE_ZERO \<noteq> 0 \<longrightarrow>
      decompileDeltas_' (m + nat ((byteord (data ! p) AND 0x3F) + 1)) data offset =
      Inr (ds @ replicate (nat ((byteord (data ! p) AND 0x3F) + 1)) 0, p + 1))"
proof (intro conjI impI)
  assume "pos < length data \<and> length result < numDeltas
      \<and> byteord (data ! pos) AND DELTAS_ARE_ZERO \<noteq> 0"
  then show "decompileDeltas_loop numDeltas data result pos =
      decompileDeltas_loop numDeltas data
        (result @ replicate (nat ((byteord (data ! pos) AND 0x3F) + 1)) 0) (pos + 1)"
    by (simp add: decompileDeltas_zero_run_step)
next
  assume "pos < length data \<and> length result < numDeltas
      \<and> byteord (data ! pos) AND DELTAS_ARE_ZERO \<noteq> 0
      \<and> numDeltas \<le> length result + nat ((byteord (data ! pos) AND 0x3F) + 1)"
  then show "decompileDeltas_loop numDeltas data result pos =
      Inr (result @ replicate (nat ((byteord (data ! pos) AND 0x3F) + 1)) 0, pos + 1)"
    by (simp add: decompileDeltas_zero_run_last)
next
  let ?n = "nat ((byteord (data ! p) AND 0x3F) + 1)"
  assume a: "decompileDeltas_' m data offset = Inr (ds, p) \<and> p < length data
      \<and> byteord (data ! p) AND DELTAS_ARE_ZERO \<noteq> 0"
  then have l: "decompileDeltas_loop m data [] offset = Inr (ds, p)" and len: "length ds = m"
    by (simp_all add: decompileDeltas_ok)
  have pos: "0 < ?n"
    using numDeltasInRun_pos [of "data ! p"] by (simp add: DELTA_RUN_COUNT_MASK_def)
  have "decompileDeltas_loop (m + ?n) data [] offset = decompileDeltas_loop (m + ?n) data ds p"
    using l len by (rule decompileDeltas_loop_extend) simp
  also have "\<dots> = Inr (ds @ replicate ?n 0, p + 1)"
    using a len pos by (intro decompileDeltas_zero_run_last) simp_all
  finally show "decompileDeltas_' (m + ?n) data offset = Inr (ds @ replicate ?n 0, p + 1)"
    using len by (simp add: decompileDeltas_ok)
qed

text \<open>
  The header \<open>0xC2\<close> has both flags set and stands for three zeroes. After the byte run
  \<open>00 05\<close> it extends the decoded \<open>[5]\<close> to \<open>[5, 0, 0, 0]\<close> and the decoder stops at
  position 3: the byte \<open>07\<close> that follows the header is not read.
\<close>

theorem zero_flag_precedence_witness:
  "decompileDeltas_loop 4 [0x00, 0x05, 0xC2, 0x07] [5] 2 =
     decompileDeltas_loop 4 [0x00, 0x05, 0xC2, 0x07] [5, 0, 0, 0] 3
   \<and> decompileDeltas_loop 4 [0x00, 0x05, 0xC2, 0x07] [5] 2 = Inr ([5, 0, 0, 0], 3)
   \<and> decompileDeltas_' 1 [0x00, 0x05, 0xC2, 0x07] 0 = Inr ([5], 2)
   \<and> decompileDeltas_' 4 [0x00, 0x05, 0xC2, 0x07] 0 = Inr ([5, 0, 0, 0], 3)"
proof -
  let ?data = "[0x00, 0x05, 0xC2, 0x07] :: byte list"
  let ?n = "nat ((byteord (?data ! 2) AND 0x3F) + 1)"
  have h: "byteord (?data ! 2) AND DELTAS_ARE_ZERO \<noteq> 0"
    by (simp add: byteord_def DELTAS_ARE_ZERO_def)
  have n: "?n = 3"
    by (simp add: byteord_def)
  have r: "[5] @ replicate 3 (0::int) = [5, 0, 0, 0]"
    by (simp add: numeral_3_eq_3)
  have s: "(1::nat) + 3 = 4" "(2::nat) + 1 = 3"
    by simp_all
  have pre: "decompileDeltas_' 1 ?data 0 = Inr ([5], 2)"
    by code_simp
  have h1: "2 < length ?data \<and> length [5::int] < 4 \<and> byteord (?data ! 2) AND DELTAS_ARE_ZERO \<noteq> 0"
    using h by simp
  have h2: "2 < length ?data \<and> length [5::int] < 4 \<and> byteord (?data ! 2) AND DELTAS_ARE_ZERO \<noteq> 0
            \<and> 4 \<le> length [5::int] + ?n"
    using h1 unfolding n by simp
  have h3: "decompileDeltas_' 1 ?data 0 = Inr ([5], 2) \<and> 2 < length ?data
            \<and> byteord (?data ! 2) AND DELTAS_ARE_ZERO \<noteq> 0"
    using h pre by simp
  note t = zero_flag_precedence [of 2 ?data "[5]" 4 1 0 "[5]" 2]
  have c1: "decompileDeltas_loop 4 ?data [5] 2 =
            decompileDeltas_loop 4 ?data ([5] @ replicate ?n 0) (2 + 1)"
    using t h1 by blast
  have c2: "decompileDeltas_loop 4 ?data [5] 2 = Inr ([5] @ replicate ?n 0, 2 + 1)"
    using t h2 by blast
  have c3: "decompileDeltas_' (1 + ?n) ?data 0 = Inr ([5] @ replicate ?n 0, 2 + 1)"
    using t h3 by blast
  show ?thesis
    using c1 c2 c3 pre unfolding n r s by blast
qed
lemma zeroes_loop_spec:
  "encodeDeltaRunAsZeroes_loop deltas pos runLength = (pos', runLength') \<Longrightarrow>
   pos \<le> length deltas \<Longrightarrow> runLength \<le> 64 \<Longrightarrow>
   pos' \<le> length deltas \<and> runLength' \<le> 64 \<and> (\<forall>i. pos \<le> i \<and> i < pos' \<longrightarrow> deltas ! i = 0)"
proof (induction deltas pos runLength rule: encodeDeltaRunAsZeroes_loop.induct)
  case (1 deltas pos runLength)
  show ?case
  proof (cases "pos < length deltas \<and> runLength < 64 \<and> deltas ! pos = 0")
    case True
    then have "encodeDeltaRunAsZeroes_loop deltas (pos + 1) (runLength + 1) = (pos', runLength')"
      using "1.prems" by (subst (asm) encodeDeltaRunAsZeroes_loop.simps) simp
    from "1.IH" [OF True this] True
    have "pos' \<le> length deltas \<and> runLength' \<le> 64 \<and> (\<forall>i. pos + 1 \<le> i \<and> i < pos' \<longrightarrow> deltas ! i = 0)"
      by simp
    with True show ?thesis
      by (metis Suc_eq_plus1 Suc_leI le_neq_implies_less)
  next
    case False
    then show ?thesis
      using "1.prems" by (subst (asm) encodeDeltaRunAsZeroes_loop.simps) auto
  qed
qed

lemma bytes_loop_spec:
  "encodeDeltaRunAsBytes_loop deltas pos runLength = (pos', runLength') \<Longrightarrow>
   pos \<le> length deltas \<Longrightarrow> runLength \<le> 64 \<Longrightarrow>
   pos' \<le> length deltas \<and> runLength' \<le> 64
   \<and> (\<forall>i. pos \<le> i \<and> i < pos' \<longrightarrow> - 128 \<le> deltas ! i \<and> deltas ! i \<le> 127)"
proof (induction deltas pos runLength rule: encodeDeltaRunAsBytes_loop.induct)
  case (1 deltas pos runLength)
  let ?go = "pos < length deltas \<and> runLength < 64 \<and> \<not> (deltas ! pos < - 128 \<or> deltas ! pos > 127)
             \<and> \<not> (deltas ! pos = 0 \<and> pos + 1 < length deltas \<and> deltas ! (pos + 1) = 0)"
  show ?case
  proof (cases ?go)
    case True
    then have "encodeDeltaRunAsBytes_loop deltas (pos + 1) (runLength + 1) = (pos', runLength')"
      using "1.prems" by (subst (asm) encodeDeltaRunAsBytes_loop.simps) (auto simp: Let_def split: if_splits)
    from "1.IH" [OF _ refl _ _ this] True
    have "pos' \<le> length deltas \<and> runLength' \<le> 64
          \<and> (\<forall>i. pos + 1 \<le> i \<and> i < pos' \<longrightarrow> - 128 \<le> deltas ! i \<and> deltas ! i \<le> 127)"
      by auto
    with True show ?thesis
      by (metis Suc_eq_plus1 Suc_leI le_neq_implies_less not_le)
  next
    case False
    then show ?thesis
      using "1.prems"
      by (subst (asm) encodeDeltaRunAsBytes_loop.simps) (auto simp: Let_def split: if_splits)
  qed
qed

lemma words_loop_spec:
  "encodeDeltaRunAsWords_loop deltas pos runLength = (pos', runLength') \<Longrightarrow>
   pos \<le> length deltas \<Longrightarrow> runLength \<le> 64 \<Longrightarrow>
   pos' \<le> length deltas \<and> runLength' \<le> 64"
proof (induction deltas pos runLength rule: encodeDeltaRunAsWords_loop.induct)
  case (1 deltas pos runLength)
  show ?case
    using "1.prems" "1.IH"
    apply (subst (asm) encodeDeltaRunAsWords_loop.simps)
    apply (auto simp: Let_def split: if_splits)
    done
qed

lemma zeroes_loop_first:
  "pos < length deltas \<Longrightarrow> deltas ! pos = 0 \<Longrightarrow>
   encodeDeltaRunAsZeroes_loop deltas pos 0 = (pos', runLength') \<Longrightarrow> 1 \<le> runLength'"
  by (subst (asm) encodeDeltaRunAsZeroes_loop.simps)
     (auto dest: encodeDeltaRunAsZeroes_loop_advance)

lemma bytes_loop_first:
  "pos < length deltas \<Longrightarrow> deltas ! pos \<noteq> 0 \<Longrightarrow> - 128 \<le> deltas ! pos \<Longrightarrow> deltas ! pos \<le> 127 \<Longrightarrow>
   encodeDeltaRunAsBytes_loop deltas pos 0 = (pos', runLength') \<Longrightarrow> 1 \<le> runLength'"
  by (subst (asm) encodeDeltaRunAsBytes_loop.simps)
     (auto simp: Let_def dest: encodeDeltaRunAsBytes_loop_advance)

lemma words_loop_first:
  "pos < length deltas \<Longrightarrow> \<not> (- 128 \<le> deltas ! pos \<and> deltas ! pos \<le> 127) \<Longrightarrow>
   encodeDeltaRunAsWords_loop deltas pos 0 = (pos', runLength') \<Longrightarrow> 1 \<le> runLength'"
  by (subst (asm) encodeDeltaRunAsWords_loop.simps)
     (auto simp: Let_def isByteEncodable_def split: if_splits dest: encodeDeltaRunAsWords_loop_advance)


section \<open>The delta round trip\<close>

text \<open>The ranges of \<^verbatim>\<open>struct.pack\<close>, and the two bytes of a packed 16-bit value.\<close>

definition in16 :: "int \<Rightarrow> bool" where
  "in16 v = (- 32768 \<le> v \<and> v \<le> 32767)"

definition in8 :: "int \<Rightarrow> bool" where
  "in8 v = (- 128 \<le> v \<and> v \<le> 127)"

definition enc_h :: "int \<Rightarrow> byte list" where
  "enc_h v = [word_of_int ((v mod 65536) div 256), word_of_int ((v mod 65536) mod 256)]"

lemma write_packed_b:
  "list_all in8 vs \<Longrightarrow> write_packed pack_b vs stream = Inr (stream @ map word_of_int vs)"
  by (induction vs arbitrary: stream) (auto simp: pack_b_def in8_def)

lemma write_packed_h:
  "list_all in16 vs \<Longrightarrow> write_packed pack_h vs stream = Inr (stream @ concat (map enc_h vs))"
  by (induction vs arbitrary: stream) (auto simp: pack_h_def in16_def enc_h_def)

lemma map_sint_bytes: "list_all in8 vs \<Longrightarrow> map sint (map word_of_int vs :: byte list) = vs"
  by (induction vs) (auto simp: in8_def sint_byte_of_int)

lemma length_enc_h: "length (concat (map enc_h vs)) = 2 * length vs"
  by (induction vs) (auto simp: enc_h_def)

lemma word_be_enc_h:
  "256 * uint (word_of_int ((v mod 65536) div 256) :: byte)
     + uint (word_of_int ((v mod 65536) mod 256) :: byte) = v mod 65536"
proof -
  define u where "u = v mod 65536"
  have u: "0 \<le> u" "u < 65536"
    by (simp_all add: u_def)
  then have "0 \<le> u div 256" "u div 256 \<le> 255"
    using zdiv_mono1 [of u 65535 256] by (simp_all add: pos_imp_zdiv_nonneg_iff)
  then show ?thesis
    unfolding u_def [symmetric] by (simp add: uint_byte_of_int)
qed

lemma words_be_enc_h: "words_be (concat (map enc_h vs)) = map (\<lambda>v. v mod 65536) vs"
  by (induction vs) (auto simp: enc_h_def word_be_enc_h)

lemma signed16_mod: "in16 v \<Longrightarrow> signed16 (v mod 65536) = v"
proof (cases "0 \<le> v")
  case True
  assume "in16 v"
  with True have "v mod 65536 = v"
    by (simp add: in16_def)
  with \<open>in16 v\<close> show ?thesis
    by (simp add: signed16_def in16_def)
next
  case False
  assume "in16 v"
  have "v mod 65536 = (v + 65536) mod 65536"
    by simp
  also have "\<dots> = v + 65536"
    using False \<open>in16 v\<close> by (intro mod_pos_pos_trivial) (simp_all add: in16_def)
  finally show ?thesis
    using False \<open>in16 v\<close> by (simp add: signed16_def in16_def)
qed


text \<open>A run as the decoder sees it: the header byte, the payload, and the values it stands for.\<close>

definition delta_run :: "byte \<Rightarrow> byte list \<Rightarrow> int list \<Rightarrow> bool" where
  "delta_run h payload vs =
     (1 \<le> length vs \<and> length vs \<le> 64 \<and>
      ((h = word_of_int (0x80 OR (int (length vs) - 1)) \<and> payload = [] \<and> vs = replicate (length vs) 0)
       \<or> (h = word_of_int (int (length vs) - 1) \<and> payload = map word_of_int vs \<and> list_all in8 vs)
       \<or> (h = word_of_int (0x40 OR (int (length vs) - 1)) \<and> payload = concat (map enc_h vs)
          \<and> list_all in16 vs)))"

lemma segment_conv:
  "pos \<le> pos' \<Longrightarrow> pos' \<le> length deltas \<Longrightarrow>
   map (\<lambda>i. deltas ! i) [pos..<pos'] = take (pos' - pos) (drop pos deltas)"
  by (auto simp: list_eq_iff_nth_eq)

lemma slice_payload:
  "slice (pre @ h # payload @ rest) (length pre + 1) (length payload) = payload"
  by (simp add: slice_def)

lemma header_byte:
  "data = pre @ h # payload @ rest \<Longrightarrow> length pre < length data \<and> data ! length pre = h"
  by simp

lemma hdr_arith:
  fixes k :: int
  assumes "0 \<le> k" "k < 64"
  shows "(128 + k) mod 64 = k" "(64 + k) mod 64 = k" "k mod 64 = k"
    "odd ((128 + k) div 128)" "even (k div 128)" "even (k div 64)"
    "odd ((64 + k) div 64)" "even ((64 + k) div 128)"
proof -
  show "k mod 64 = k" using assms by simp
  then show "(128 + k) mod 64 = k"
    using mod_mult_self2 [of k 64 2] by (simp add: add.commute)
  show "(64 + k) mod 64 = k"
    using assms by simp
  have d1: "k div 128 = 0"
    using assms by (intro div_pos_pos_trivial) auto
  have d2: "k div 64 = 0"
    using assms by (intro div_pos_pos_trivial) auto
  have d3: "(64 + k) div 128 = 0"
    using assms by (intro div_pos_pos_trivial) auto
  have "(k + 128 * 1) div 128 = 1 + k div 128"
    by (rule div_mult_self2) simp
  then have d4: "(128 + k) div 128 = 1"
    unfolding d1 by (simp add: add.commute)
  have "(k + 64 * 1) div 64 = 1 + k div 64"
    by (rule div_mult_self2) simp
  then have d5: "(64 + k) div 64 = 1"
    unfolding d2 by (simp add: add.commute)
  show "odd ((128 + k) div 128)"
    unfolding d4 by simp
  show "even (k div 128)" "even (k div 64)" "even ((64 + k) div 128)"
    unfolding d1 d2 d3 by simp_all
  show "odd ((64 + k) div 64)"
    unfolding d5 by simp
qed

lemma decode_delta_run:
  assumes run: "delta_run h payload vs"
      and more: "length r < n"
  shows "decompileDeltas_loop n (pre @ h # payload @ rest) r (length pre) =
         decompileDeltas_loop n (pre @ h # payload @ rest) (r @ vs) (length pre + 1 + length payload)"
proof -
  let ?data = "pre @ h # payload @ rest"
  define k where "k = int (length vs) - 1"
  have k: "0 \<le> k" "k < 64"
    using run by (auto simp: delta_run_def k_def)
  have lenvs: "nat (k + 1) = length vs"
    by (simp add: k_def)
  from run consider
      (zero) "h = word_of_int (0x80 OR k)" "payload = []" "vs = replicate (length vs) 0"
    | (bytes) "h = word_of_int k" "payload = map word_of_int vs" "list_all in8 vs"
    | (words) "h = word_of_int (0x40 OR k)" "payload = concat (map enc_h vs)" "list_all in16 vs"
    unfolding delta_run_def k_def by blast
  then show ?thesis
  proof cases
    case zero
    have "0x80 OR k = 128 + k"
      using k by (intro or_0x80) auto
    then have h: "byteord h = 128 + k"
      unfolding zero(1) byteord_def using k by (intro trans [OF uint_byte_of_int]) auto
    have n: "nat ((byteord h AND DELTA_RUN_COUNT_MASK) + 1) = length vs"
      unfolding h DELTA_RUN_COUNT_MASK_def and_0x3f hdr_arith(1) [OF k] by (rule lenvs)
    have z: "byteord h AND DELTAS_ARE_ZERO \<noteq> 0"
      unfolding h DELTAS_ARE_ZERO_def and_0x80 by (rule hdr_arith(4) [OF k])
    have "replicate (length vs) 0 = vs"
      using zero(3) by simp
    then show ?thesis
      using more z zero(2)
      by (subst decompileDeltas_loop.simps) (simp add: Let_def n)
  next
    case bytes
    have h: "byteord h = k"
      unfolding bytes(1) byteord_def using k by (intro uint_byte_of_int) auto
    have n: "nat ((byteord h AND DELTA_RUN_COUNT_MASK) + 1) = length vs"
      unfolding h DELTA_RUN_COUNT_MASK_def and_0x3f hdr_arith(3) [OF k] by (rule lenvs)
    have z: "byteord h AND DELTAS_ARE_ZERO = 0"
      using and_0x80 [of k] hdr_arith(5) [OF k] unfolding h DELTAS_ARE_ZERO_def by blast
    have w: "byteord h AND DELTAS_ARE_WORDS = 0"
      using and_0x40 [of k] hdr_arith(6) [OF k] unfolding h DELTAS_ARE_WORDS_def by blast
    have len: "length payload = length vs"
      by (simp add: bytes(2))
    have sl: "slice ?data (Suc (length pre)) (length vs) = payload"
      using slice_payload [of pre h payload rest] by (simp add: len)
    have arr: "array_fromstring TC_b payload = Inr vs"
      unfolding array_fromstring_def bytes(2) using map_sint_bytes [OF bytes(3)] by simp
    show ?thesis
      using more
      by (subst decompileDeltas_loop.simps) (simp add: Let_def n z w sl arr len)
  next
    case words
    have "0x40 OR k = 64 + k"
      using k by (intro or_0x40) auto
    then have h: "byteord h = 64 + k"
      unfolding words(1) byteord_def using k by (intro trans [OF uint_byte_of_int]) auto
    have n: "nat ((byteord h AND DELTA_RUN_COUNT_MASK) + 1) = length vs"
      unfolding h DELTA_RUN_COUNT_MASK_def and_0x3f hdr_arith(2) [OF k] by (rule lenvs)
    have z: "byteord h AND DELTAS_ARE_ZERO = 0"
      using and_0x80 [of "64 + k"] hdr_arith(8) [OF k] unfolding h DELTAS_ARE_ZERO_def by blast
    have w: "byteord h AND DELTAS_ARE_WORDS \<noteq> 0"
      unfolding h DELTAS_ARE_WORDS_def and_0x40 by (rule hdr_arith(7) [OF k])
    have len: "length payload = length vs * 2"
      by (simp add: words(2) length_enc_h)
    have sl: "slice ?data (Suc (length pre)) (length vs * 2) = payload"
      using slice_payload [of pre h payload rest] by (simp add: len)
    have "map signed16 (map (\<lambda>v. v mod 65536) vs) = vs"
      using words(3) by (induction vs) (auto simp: signed16_mod)
    then have arr: "array_fromstring TC_h payload = Inr vs"
      by (simp add: array_fromstring_def words(2) words_be_enc_h length_enc_h)
    show ?thesis
      using more
      by (subst decompileDeltas_loop.simps) (simp add: Let_def n z w sl arr len)
  qed
qed


lemma list_all_segment: "list_all P xs \<Longrightarrow> list_all P (take n (drop m xs))"
  by (auto simp: list_all_iff dest: in_set_takeD in_set_dropD)

lemma segment_all:
  assumes "pos' \<le> length deltas" and "\<forall>i. pos \<le> i \<and> i < pos' \<longrightarrow> P (deltas ! i)"
  shows "list_all P (take (pos' - pos) (drop pos deltas))"
  using assms by (auto simp: list_all_length)

lemma encodeDeltaRun_spec:
  assumes pos: "pos < length deltas" and rng: "list_all in16 deltas"
  shows "\<exists>pos' h payload.
           encodeDeltaRun deltas pos stream = Inr (pos', stream @ h # payload)
           \<and> pos < pos' \<and> pos' \<le> length deltas
           \<and> delta_run h payload (take (pos' - pos) (drop pos deltas))"
proof -
  consider (zero) "deltas ! pos = 0"
    | (bytes) "deltas ! pos \<noteq> 0" "- 128 \<le> deltas ! pos" "deltas ! pos \<le> 127"
    | (words) "\<not> (- 128 \<le> deltas ! pos \<and> deltas ! pos \<le> 127)"
    by fastforce
  then show ?thesis
  proof cases
    case zero
    obtain pos' rl where loop: "encodeDeltaRunAsZeroes_loop deltas pos 0 = (pos', rl)"
      by fastforce
    let ?vs = "take (pos' - pos) (drop pos deltas)"
    from encodeDeltaRunAsZeroes_loop_advance [OF loop] have adv: "pos' = pos + rl"
      by simp
    from zeroes_loop_spec [OF loop] pos
    have sp: "pos' \<le> length deltas" "rl \<le> 64" "\<forall>i. pos \<le> i \<and> i < pos' \<longrightarrow> deltas ! i = 0"
      by auto
    from zeroes_loop_first [OF pos zero loop] have rl1: "1 \<le> rl" .
    have len: "length ?vs = rl"
      using sp(1) adv by simp
    have or: "0x80 OR (int rl - 1) = 128 + (int rl - 1)"
      using rl1 sp(2) by (intro or_0x80) auto
    have enc: "encodeDeltaRun deltas pos stream
               = Inr (pos', stream @ word_of_int (0x80 OR (int rl - 1)) # [])"
      using zero rl1 sp(2)
      by (simp add: encodeDeltaRun_def encodeDeltaRunAsZeroes_'_def loop bytechr_def
            DELTAS_ARE_ZERO_def or)
    have "list_all (\<lambda>v. v = 0) ?vs"
      using sp(1,3) by (intro segment_all) auto
    then have "?vs = replicate (length ?vs) 0"
      by (auto simp: list_all_length list_eq_iff_nth_eq)
    then have "delta_run (word_of_int (0x80 OR (int rl - 1))) [] ?vs"
      unfolding delta_run_def len using rl1 sp(2) by (simp only: len) simp
    with enc adv rl1 sp(1) show ?thesis
      by (intro exI conjI) auto
  next
    case bytes
    obtain pos' rl where loop: "encodeDeltaRunAsBytes_loop deltas pos 0 = (pos', rl)"
      by fastforce
    let ?vs = "take (pos' - pos) (drop pos deltas)"
    from encodeDeltaRunAsBytes_loop_advance [OF loop] have adv: "pos' = pos + rl"
      by simp
    from bytes_loop_spec [OF loop] pos
    have sp: "pos' \<le> length deltas" "rl \<le> 64"
      "\<forall>i. pos \<le> i \<and> i < pos' \<longrightarrow> - 128 \<le> deltas ! i \<and> deltas ! i \<le> 127"
      by auto
    from bytes_loop_first [OF pos bytes loop] have rl1: "1 \<le> rl" .
    have len: "length ?vs = rl"
      using sp(1) adv by simp
    have seg: "map (\<lambda>i. deltas ! i) [pos..<pos'] = ?vs"
      using adv sp(1) by (intro segment_conv) auto
    have all8: "list_all in8 ?vs"
      using sp(1,3) unfolding in8_def by (intro segment_all) auto
    have enc: "encodeDeltaRun deltas pos stream
               = Inr (pos', stream @ word_of_int (int rl - 1) # map word_of_int ?vs)"
      using bytes rl1 sp(2)
      by (simp add: encodeDeltaRun_def encodeDeltaRunAsBytes_'_def loop bytechr_def
            seg write_packed_b [OF all8])
    have "delta_run (word_of_int (int rl - 1)) (map word_of_int ?vs) ?vs"
      unfolding delta_run_def using rl1 sp(2) all8 by (simp only: len) simp
    with enc adv rl1 sp(1) show ?thesis
      by (intro exI conjI) auto
  next
    case words
    obtain pos' rl where loop: "encodeDeltaRunAsWords_loop deltas pos 0 = (pos', rl)"
      by fastforce
    let ?vs = "take (pos' - pos) (drop pos deltas)"
    from encodeDeltaRunAsWords_loop_advance [OF loop] have adv: "pos' = pos + rl"
      by simp
    from words_loop_spec [OF loop] pos
    have sp: "pos' \<le> length deltas" "rl \<le> 64"
      by auto
    from words_loop_first [OF pos words loop] have rl1: "1 \<le> rl" .
    have len: "length ?vs = rl"
      using sp(1) adv by simp
    have seg: "map (\<lambda>i. deltas ! i) [pos..<pos'] = ?vs"
      using adv sp(1) by (intro segment_conv) auto
    have all16: "list_all in16 ?vs"
      using rng by (rule list_all_segment)
    have or: "0x40 OR (int rl - 1) = 64 + (int rl - 1)"
      using rl1 sp(2) by (intro or_0x40) auto
    have nz: "deltas ! pos \<noteq> 0"
      using words by auto
    have enc: "encodeDeltaRun deltas pos stream
               = Inr (pos', stream @ word_of_int (0x40 OR (int rl - 1)) # concat (map enc_h ?vs))"
      using nz rl1 sp(2)
      by (simp add: encodeDeltaRun_def encodeDeltaRunAsWords_'_def loop bytechr_def
            DELTAS_ARE_WORDS_def or seg write_packed_h [OF all16] words)
    have "delta_run (word_of_int (0x40 OR (int rl - 1))) (concat (map enc_h ?vs)) ?vs"
      unfolding delta_run_def using rl1 sp(2) all16 by (simp only: len) simp
    with enc adv rl1 sp(1) show ?thesis
      by (intro exI conjI) auto
  qed
qed


lemma segment_then_rest:
  "pos \<le> pos' \<Longrightarrow> take (pos' - pos) (drop pos xs) @ drop pos' xs = drop pos xs"
  using append_take_drop_id [of "pos' - pos" "drop pos xs"] by (simp add: add.commute)

lemma delta_roundtrip_loop:
  "list_all in16 deltas \<Longrightarrow> pos \<le> length deltas \<Longrightarrow>
   \<exists>tail. compileDeltaValues_loop deltas pos stream = Inr (stream @ tail)
     \<and> (\<forall>r. decompileDeltas_loop (length r + (length deltas - pos)) (stream @ tail) r (length stream)
            = Inr (r @ drop pos deltas, length (stream @ tail)))"
proof (induction deltas pos stream rule: compileDeltaValues_loop.induct)
  case (1 deltas pos stream)
  show ?case
  proof (cases "pos < length deltas")
    case False
    then have "compileDeltaValues_loop deltas pos stream = Inr (stream @ [])"
      by (subst compileDeltaValues_loop.simps) simp
    moreover have "\<forall>r. decompileDeltas_loop (length r + (length deltas - pos)) (stream @ []) r (length stream)
            = Inr (r @ drop pos deltas, length (stream @ []))"
      using False by (subst decompileDeltas_loop.simps) simp
    ultimately show ?thesis by blast
  next
    case True
    from encodeDeltaRun_spec [OF True "1.prems"(1), of stream]
    obtain pos' h payload where
      enc: "encodeDeltaRun deltas pos stream = Inr (pos', stream @ h # payload)"
      and adv: "pos < pos'" "pos' \<le> length deltas"
      and run: "delta_run h payload (take (pos' - pos) (drop pos deltas))"
      by blast
    let ?vs = "take (pos' - pos) (drop pos deltas)"
    have lenvs: "length ?vs = pos' - pos"
      using adv by simp
    from "1.IH" [OF True enc refl "1.prems"(1) adv(2)]
    obtain tail' where
      comp: "compileDeltaValues_loop deltas pos' (stream @ h # payload) = Inr ((stream @ h # payload) @ tail')"
      and dec: "\<And>r. decompileDeltas_loop (length r + (length deltas - pos')) ((stream @ h # payload) @ tail') r
                  (length (stream @ h # payload))
                = Inr (r @ drop pos' deltas, length ((stream @ h # payload) @ tail'))"
      by blast
    let ?data = "stream @ h # payload @ tail'"
    have data: "(stream @ h # payload) @ tail' = ?data"
      by simp
    have c: "compileDeltaValues_loop deltas pos stream = Inr (stream @ (h # payload @ tail'))"
      using True comp by (subst compileDeltaValues_loop.simps) (simp add: enc)
    have d: "decompileDeltas_loop (length r + (length deltas - pos)) ?data r (length stream)
             = Inr (r @ drop pos deltas, length ?data)" for r
    proof -
      let ?n = "length r + (length deltas - pos)"
      have less: "length r < ?n"
        using True by simp
      have n: "length (r @ ?vs) + (length deltas - pos') = ?n"
        using adv by (simp add: lenvs)
      have rest: "(r @ ?vs) @ drop pos' deltas = r @ drop pos deltas"
        using segment_then_rest [of pos pos' deltas] adv by simp
      have p: "length (stream @ h # payload) = length stream + 1 + length payload"
        by simp
      have "decompileDeltas_loop ?n ?data r (length stream)
            = decompileDeltas_loop ?n ?data (r @ ?vs) (length stream + 1 + length payload)"
        by (rule decode_delta_run [OF run less])
      also have "\<dots> = Inr ((r @ ?vs) @ drop pos' deltas, length ?data)"
        using dec [of "r @ ?vs"] unfolding data n p .
      finally show ?thesis
        unfolding rest .
    qed
    from c d show ?thesis
      by (intro exI [of _ "h # payload @ tail'"]) simp
  qed
qed

text \<open>
  Claim C2 (delta round-trip). For every sequence \<open>D\<close> of integers, each in
  \<open>[-32768, 32767]\<close>, \<^verbatim>\<open>compileDeltaValues_(D)\<close> returns a byte string, and
  \<^verbatim>\<open>decompileDeltas_\<close> applied to the number of values, that string and offset 0
  returns \<open>D\<close> together with the length of the string.
\<close>

theorem delta_roundtrip:
  assumes "\<forall>d \<in> set D. - 32768 \<le> d \<and> d \<le> 32767"
  shows "\<exists>bs. compileDeltaValues_' D = Inr bs
              \<and> decompileDeltas_' (length D) bs 0 = Inr (D, length bs)"
proof -
  have "list_all in16 D"
    using assms by (simp add: list_all_iff in16_def)
  from delta_roundtrip_loop [OF this, of 0 "[]"]
  obtain bs where c: "compileDeltaValues_loop D 0 [] = Inr ([] @ bs)"
    and d: "\<And>r. decompileDeltas_loop (length r + (length D - 0)) ([] @ bs) r (length ([] :: byte list))
                = Inr (r @ drop 0 D, length ([] @ bs))"
    by blast
  from d [of "[]"] have "decompileDeltas_loop (length D) bs [] 0 = Inr (D, length bs)"
    by simp
  with c show ?thesis
    by (simp add: compileDeltaValues_'_def decompileDeltas_'_def)
qed

text \<open>The round trip on a sequence with a byte run, a word run and a zero.\<close>

theorem delta_roundtrip_witness:
  "compileDeltaValues_' [- 3, 300, - 300, 0, 5] = Inr [0x00, 0xFD, 0x41, 0x01, 0x2C, 0xFE, 0xD4, 0x80, 0x00, 0x05]
   \<and> decompileDeltas_' 5 [0x00, 0xFD, 0x41, 0x01, 0x2C, 0xFE, 0xD4, 0x80, 0x00, 0x05] 0
       = Inr ([- 3, 300, - 300, 0, 5], 10)"
proof -
  let ?D = "[- 3, 300, - 300, 0, 5] :: int list"
  let ?bs = "[0x00, 0xFD, 0x41, 0x01, 0x2C, 0xFE, 0xD4, 0x80, 0x00, 0x05] :: byte list"
  have c: "compileDeltaValues_' ?D = Inr ?bs"
    by code_simp
  have lD: "length ?D = 5" and lbs: "length ?bs = 10"
    by simp_all
  have "\<forall>d \<in> set ?D. - 32768 \<le> d \<and> d \<le> 32767"
    by simp
  from delta_roundtrip [OF this] obtain bs where
    "compileDeltaValues_' ?D = Inr bs" and d: "decompileDeltas_' (length ?D) bs 0 = Inr (?D, length bs)"
    by blast
  with c have "bs = ?bs"
    by simp
  with d have "decompileDeltas_' 5 ?bs 0 = Inr (?D, 10)"
    unfolding lD by (simp only: lbs)
  with c show ?thesis
    by blast
qed

section \<open>Properties of the point-number codec\<close>

lemma readNumPointsInData_zero:
  "readNumPointsInData (pre @ 0 # rest) (length pre) = Inr (0, length pre + 1)"
  by (simp add: readNumPointsInData_def byteord_def Let_def)

lemma decompilePoints_zero_count:
  "tableTag \<in> {''cvar'', ''gvar''} \<Longrightarrow>
   decompilePoints_' N (pre @ 0 # rest) (length pre) tableTag
     = Inr ((map int [0..<N], length pre + 1), [])"
  by (simp only: decompilePoints_'_def readNumPointsInData_zero) auto

text \<open>
  Claim C3 (all-points shortcut). For every \<open>N\<close>, \<^verbatim>\<open>compilePoints\<close> applied to
  the full set \<open>{0, ..., N - 1}\<close> and \<open>N\<close> returns the single byte \<open>0x00\<close>; and
  \<^verbatim>\<open>decompilePoints_\<close> reading a byte \<open>0x00\<close> at the offset returns the points
  \<open>0, 1, ..., N - 1\<close> and the offset plus one, with no warning.
\<close>

theorem all_points_shortcut:
  "compilePoints {0..<int N} N = Inr [0x00]
   \<and> (tableTag \<in> {''cvar'', ''gvar''} \<longrightarrow>
        decompilePoints_' N (pre @ 0x00 # rest) (length pre) tableTag
          = Inr ((map int [0..<N], length pre + 1), []))"
  using decompilePoints_zero_count [of tableTag N pre rest]
  by (simp add: compilePoints_def)

text \<open>The shortcut at \<open>N = 3\<close>, on the byte string that is the byte \<open>0x00\<close> alone.\<close>

theorem all_points_shortcut_witness:
  "compilePoints {0, 1, 2} 3 = Inr [0x00]
   \<and> decompilePoints_' 3 [0x00] 0 ''gvar'' = Inr (([0, 1, 2], 1), [])"
proof -
  have s: "{0..<int 3} = {0, 1, 2}"
    by auto
  have l: "map int [0..<3] = [0, 1, 2]"
    by (simp add: upt_rec)
  from all_points_shortcut [of 3 "''gvar''" "[]" "[]"] show ?thesis
    unfolding s l by simp
qed

text \<open>
  Claim C10 (the empty set). For every \<open>N\<close>, \<^verbatim>\<open>compilePoints\<close> applied to the
  empty set returns the single byte \<open>0x00\<close>, the encoding of all points;
  \<^verbatim>\<open>decompilePoints_\<close> reads it back as the \<open>N\<close> points \<open>0, ..., N - 1\<close>, which
  for \<open>N > 0\<close> is not the sorted list of the empty set: the round trip fails there.
\<close>

theorem empty_set_encodes_as_all_points:
  "compilePoints {} N = Inr [0x00]
   \<and> (tableTag \<in> {''cvar'', ''gvar''} \<longrightarrow>
        decompilePoints_' N [0x00] 0 tableTag = Inr ((map int [0..<N], 1), []))
   \<and> (0 < N \<longrightarrow> map int [0..<N] \<noteq> sorted_list_of_set ({} :: int set))"
proof (intro conjI impI)
  show "compilePoints {} N = Inr [0x00]"
    by (simp add: compilePoints_def bytechr_def compilePoints_loop.simps)
next
  assume "tableTag \<in> {''cvar'', ''gvar''}"
  from decompilePoints_zero_count [OF this, of N "[]" "[]"]
  show "decompilePoints_' N [0x00] 0 tableTag = Inr ((map int [0..<N], 1), [])"
    by simp
next
  assume "0 < N"
  then show "map int [0..<N] \<noteq> sorted_list_of_set ({} :: int set)"
    by simp
qed

text \<open>The empty set in a glyph of two points comes back as both points.\<close>

theorem empty_set_encodes_as_all_points_witness:
  "compilePoints {} 2 = Inr [0x00]
   \<and> decompilePoints_' 2 [0x00] 0 ''cvar'' = Inr (([0, 1], 1), [])
   \<and> [0, 1] \<noteq> sorted_list_of_set ({} :: int set)"
proof -
  have l: "map int [0..<2] = [0, 1]"
    by (simp add: upt_rec)
  from empty_set_encodes_as_all_points [of 2 "''cvar''"] show ?thesis
    unfolding l by simp
qed

text \<open>
  Claim C8 (points out of range are recovered). When the count read from the data is
  not zero and the loop over the runs ends without an error, \<^verbatim>\<open>decompilePoints_\<close>
  returns, whatever \<open>numPoints\<close> is: the list holds every decoded absolute point,
  those below 0 or at least \<open>numPoints\<close> included, at the position it was decoded
  at, and the only effect of a point out of range is the warning that names them.
\<close>

theorem out_of_range_points_recovered:
  assumes "tableTag \<in> {''cvar'', ''gvar''}"
      and "readNumPointsInData data offset = Inr (numPointsInData, pos)"
      and "numPointsInData \<noteq> 0"
      and "decompilePoints_loop (nat numPointsInData) data [] pos = Inr (result, pos')"
  shows "decompilePoints_' numPoints data offset tableTag =
           Inr ((absolute_from 0 result, pos'),
                if \<exists>p \<in> set (absolute_from 0 result). p < 0 \<or> p \<ge> int numPoints
                then [PointOutOfRange
                        {p \<in> set (absolute_from 0 result). p < 0 \<or> p \<ge> int numPoints} tableTag]
                else [])"
proof -
  let ?abs = "absolute_from 0 result"
  let ?bad = "set (filter (\<lambda>p. p < 0 \<or> p \<ge> int numPoints) ?abs)"
  have b: "?bad = {p \<in> set ?abs. p < 0 \<or> p \<ge> int numPoints}"
    by simp
  have e: "(?bad \<noteq> {}) = (\<exists>p \<in> set ?abs. p < 0 \<or> p \<ge> int numPoints)"
    by (auto simp: filter_empty_conv)
  have "decompilePoints_' numPoints data offset tableTag =
          Inr ((?abs, pos'), if ?bad \<noteq> {} then [PointOutOfRange ?bad tableTag] else [])"
    using assms by (simp add: decompilePoints_'_def Let_def)
  then have "decompilePoints_' numPoints data offset tableTag =
          Inr ((?abs, pos'),
               if \<exists>p \<in> set ?abs. p < 0 \<or> p \<ge> int numPoints
               then [PointOutOfRange ?bad tableTag] else [])"
    by (simp only: e)
  then show ?thesis
    by (simp only: b)
qed

text \<open>Two points, 1 and 6, in a glyph of three points: 6 is returned and warned about.\<close>

theorem out_of_range_points_recovered_witness:
  "decompilePoints_' 3 [0x02, 0x01, 0x01, 0x05] 0 ''gvar''
     = Inr (([1, 6], 4), [PointOutOfRange {6} ''gvar''])"
proof -
  have c: "readNumPointsInData [0x02, 0x01, 0x01, 0x05] 0 = Inr (2, 1)"
    by (simp add: readNumPointsInData_def byteord_def Let_def POINTS_ARE_WORDS_def)
  have l: "decompilePoints_loop (nat 2) [0x02, 0x01, 0x01, 0x05] [] 1 = Inr ([1, 5], 4)"
    by code_simp
  have t: "''gvar'' \<in> {''cvar'', ''gvar''}"
    by simp
  have z: "(2::int) \<noteq> 0"
    by simp
  have b: "{p \<in> set (absolute_from 0 [1, 5]). p < 0 \<or> p \<ge> int 3} = {6}"
    by auto
  from out_of_range_points_recovered [OF t c z l, of 3] show ?thesis
    unfolding b by simp
qed

section \<open>The point-number round trip\<close>

text \<open>
  The deltas of a sorted point list, each point relative to the one before it and
  the first relative to \<open>lv\<close>; \<^const>\<open>absolute_from\<close> sums them up again.
\<close>

fun rel_from :: "int \<Rightarrow> int list \<Rightarrow> int list" where
  "rel_from lv [] = []"
| "rel_from lv (x # xs) = (x - lv) # rel_from x xs"

lemma absolute_rel_from: "absolute_from lv (rel_from lv xs) = xs"
  by (induction xs arbitrary: lv) auto

lemma length_rel_from: "length (rel_from lv xs) = length xs"
  by (induction xs arbitrary: lv) auto

lemma rel_from_append:
  "rel_from lv (xs @ ys) = rel_from lv xs @ rel_from (last (lv # xs)) ys"
  by (induction xs arbitrary: lv) auto

definition ok8 :: "int \<Rightarrow> bool" where
  "ok8 d = (0 \<le> d \<and> d \<le> 255)"

definition ok16 :: "int \<Rightarrow> bool" where
  "ok16 d = (0 \<le> d \<and> d \<le> 65535)"

definition enc_H :: "int \<Rightarrow> byte list" where
  "enc_H d = [word_of_int (drop_bit 8 d), word_of_int (d AND 0xff)]"

definition enc_points :: "bool \<Rightarrow> int list \<Rightarrow> byte list" where
  "enc_points b ds = (if b then map word_of_int ds else concat (map enc_H ds))"

lemma enc_points_append: "enc_points b (ds @ es) = enc_points b ds @ enc_points b es"
  by (simp add: enc_points_def)

lemma hi_lo_bounds:
  assumes "ok16 d"
  shows "0 \<le> d div 256" "d div 256 \<le> 255" "0 \<le> d mod 256" "d mod 256 \<le> 255"
  using assms zdiv_mono1 [of d 65535 256]
  by (simp_all add: ok16_def pos_imp_zdiv_nonneg_iff)

lemma write_delta_ok:
  "(if b then ok8 d else ok16 d) \<Longrightarrow> write_delta b d = Inr (enc_points b [d])"
  using hi_lo_bounds [of d]
  by (auto simp: write_delta_def enc_points_def enc_H_def bytechr_def ok8_def
        drop_bit_eq_div and_0xff)

lemma word_be_enc_H:
  assumes "ok16 d"
  shows "256 * uint (word_of_int (drop_bit 8 d) :: byte) + uint (word_of_int (d AND 0xff) :: byte) = d"
  using hi_lo_bounds [OF assms]
  by (simp add: drop_bit_eq_div and_0xff uint_byte_of_int)

lemma words_be_enc_H: "list_all ok16 ds \<Longrightarrow> words_be (concat (map enc_H ds)) = ds"
  by (induction ds) (auto simp: enc_H_def word_be_enc_H)

lemma length_enc_H: "length (concat (map enc_H ds)) = 2 * length ds"
  by (induction ds) (auto simp: enc_H_def)

lemma map_uint_bytes: "list_all ok8 ds \<Longrightarrow> map uint (map word_of_int ds :: byte list) = ds"
  by (induction ds) (auto simp: ok8_def uint_byte_of_int)

lemma or_0x80_right: "0 \<le> (x::int) \<Longrightarrow> x < 128 \<Longrightarrow> x OR 0x80 = 128 + x"
  using or_0x80 [of x] by (simp add: or.commute)

lemma point_hdr_arith:
  fixes k :: int
  assumes "0 \<le> k" "k < 128"
  shows "(128 + k) mod 128 = k" "k mod 128 = k"
    "odd ((128 + k) div 128)" "even (k div 128)"
proof -
  show "k mod 128 = k" using assms by simp
  show "(128 + k) mod 128 = k"
    using assms by simp
  have d1: "k div 128 = 0"
    using assms by (intro div_pos_pos_trivial) auto
  have "(k + 128 * 1) div 128 = 1 + k div 128"
    by (rule div_mult_self2) simp
  then have d4: "(128 + k) div 128 = 1"
    unfolding d1 by (simp add: add.commute)
  show "odd ((128 + k) div 128)"
    unfolding d4 by simp
  show "even (k div 128)"
    unfolding d1 by simp
qed

text \<open>A run of points as the decoder sees it: the header, the payload and the deltas.\<close>

definition point_run :: "byte \<Rightarrow> byte list \<Rightarrow> int list \<Rightarrow> bool" where
  "point_run h payload ds =
     (1 \<le> length ds \<and> length ds \<le> 128 \<and>
      ((h = word_of_int (int (length ds) - 1) \<and> payload = map word_of_int ds \<and> list_all ok8 ds)
       \<or> (h = word_of_int ((int (length ds) - 1) OR 0x80) \<and> payload = concat (map enc_H ds)
          \<and> list_all ok16 ds)))"

lemma decode_point_run:
  assumes run: "point_run h payload ds"
      and more: "length r < n"
  shows "decompilePoints_loop n (pre @ h # payload @ rest) r (length pre) =
         decompilePoints_loop n (pre @ h # payload @ rest) (r @ ds) (length pre + 1 + length payload)"
proof -
  let ?data = "pre @ h # payload @ rest"
  define k where "k = int (length ds) - 1"
  have k: "0 \<le> k" "k < 128"
    using run by (auto simp: point_run_def k_def)
  have lends: "nat (k + 1) = length ds"
    by (simp add: k_def)
  from run consider
      (bytes) "h = word_of_int k" "payload = map word_of_int ds" "list_all ok8 ds"
    | (words) "h = word_of_int (k OR 0x80)" "payload = concat (map enc_H ds)" "list_all ok16 ds"
    unfolding point_run_def k_def by blast
  then show ?thesis
  proof cases
    case bytes
    have h: "byteord h = k"
      unfolding bytes(1) byteord_def using k by (intro uint_byte_of_int) auto
    have n: "nat ((byteord h AND POINT_RUN_COUNT_MASK) + 1) = length ds"
      unfolding h POINT_RUN_COUNT_MASK_def and_0x7f point_hdr_arith(2) [OF k] by (rule lends)
    have w: "byteord h AND POINTS_ARE_WORDS = 0"
      using and_0x80 [of k] point_hdr_arith(4) [OF k] unfolding h POINTS_ARE_WORDS_def by blast
    have len: "length payload = length ds"
      by (simp add: bytes(2))
    have sl: "slice ?data (Suc (length pre)) (length ds) = payload"
      using slice_payload [of pre h payload rest] by (simp add: len)
    have arr: "array_fromstring TC_B payload = Inr ds"
      unfolding array_fromstring_def bytes(2) using map_uint_bytes [OF bytes(3)] by simp
    show ?thesis
      using more
      by (subst decompilePoints_loop.simps) (simp add: Let_def n w sl arr len)
  next
    case words
    have "k OR 0x80 = 128 + k"
      using k by (intro or_0x80_right) auto
    then have h: "byteord h = 128 + k"
      unfolding words(1) byteord_def using k by (intro trans [OF uint_byte_of_int]) auto
    have n: "nat ((byteord h AND POINT_RUN_COUNT_MASK) + 1) = length ds"
      unfolding h POINT_RUN_COUNT_MASK_def and_0x7f point_hdr_arith(1) [OF k] by (rule lends)
    have w: "byteord h AND POINTS_ARE_WORDS \<noteq> 0"
      unfolding h POINTS_ARE_WORDS_def and_0x80 by (rule point_hdr_arith(3) [OF k])
    have len: "length payload = length ds * 2"
      by (simp add: words(2) length_enc_H)
    have sl: "slice ?data (Suc (length pre)) (length ds * 2) = payload"
      using slice_payload [of pre h payload rest] by (simp add: len)
    have arr: "array_fromstring TC_H payload = Inr ds"
      by (simp add: array_fromstring_def words(2) words_be_enc_H [OF words(3)] length_enc_H)
    show ?thesis
      using more
      by (subst decompilePoints_loop.simps) (simp add: Let_def n w sl arr len)
  qed
qed


lemma drop_step: "pos < length xs \<Longrightarrow> drop pos xs = xs ! pos # drop (pos + 1) xs"
  by (simp add: Cons_nth_drop_Suc)

lemma segment_step:
  "pos < length xs \<Longrightarrow> pos + 1 \<le> pos' \<Longrightarrow>
   take (pos' - pos) (drop pos xs) = xs ! pos # take (pos' - (pos + 1)) (drop (pos + 1) xs)"
proof -
  assume a: "pos < length xs" "pos + 1 \<le> pos'"
  then have "pos' - pos = Suc (pos' - (pos + 1))"
    by simp
  then show ?thesis
    using a by (simp only: drop_step [OF a(1)] take_Suc_Cons)
qed

text \<open>
  The inner loop, once the encoding \<open>b\<close> of the run is chosen: it stops at some
  \<open>pos'\<close>, having written the deltas of the points in between.
\<close>

lemma compilePoints_run_spec:
  "u = Some b \<Longrightarrow> pos \<le> length points \<Longrightarrow> rl \<le> 128 \<Longrightarrow>
   list_all ok16 (rel_from lv (drop pos points)) \<Longrightarrow>
   \<exists>pos'. compilePoints_run points pos lv rl u run
            = Inr (pos', last (lv # take (pos' - pos) (drop pos points)), rl + (pos' - pos), Some b,
                   run @ enc_points b (rel_from lv (take (pos' - pos) (drop pos points))))
     \<and> pos \<le> pos' \<and> pos' \<le> length points \<and> rl + (pos' - pos) \<le> 128
     \<and> (b \<longrightarrow> list_all ok8 (rel_from lv (take (pos' - pos) (drop pos points))))"
proof (induction points pos lv rl u run rule: compilePoints_run.induct)
  case (1 points pos lv rl u run)
  let ?cur = "points ! pos"
  let ?d = "?cur - lv"
  show ?case
  proof (cases "pos < length points \<and> rl \<le> MAX_RUN_LENGTH")
    case False
    have "compilePoints_run points pos lv rl u run = Inr (pos, lv, rl, u, run)"
      by (subst compilePoints_run.simps) (simp only: False if_False)
    then show ?thesis
      using "1.prems" by (intro exI [of _ pos]) (simp add: enc_points_def)
  next
    case True
    then have pos: "pos < length points" and rl: "rl \<le> 127"
      by (simp_all add: MAX_RUN_LENGTH_def)
    have dr: "drop pos points = ?cur # drop (pos + 1) points"
      using pos by (rule drop_step)
    have d16: "ok16 ?d" and rest16: "list_all ok16 (rel_from ?cur (drop (pos + 1) points))"
      using "1.prems"(4) unfolding dr by simp_all
    show ?thesis
    proof (cases "b \<and> (?d > 0xff \<or> ?d < 0)")
      case True
      then have "compilePoints_run points pos lv rl u run = Inr (pos, lv, rl, Some b, run)"
        using pos rl "1.prems"(1)
        by (subst compilePoints_run.simps) (auto simp: MAX_RUN_LENGTH_def Let_def)
      then show ?thesis
        using "1.prems" by (intro exI [of _ pos]) (simp add: enc_points_def)
    next
      case False
      then have fits: "if b then ok8 ?d else ok16 ?d"
        using d16 by (auto simp: ok8_def)
      have wd: "write_delta b ?d = Inr (enc_points b [?d])"
        using fits by (rule write_delta_ok)
      have ub: "(case u of None \<Rightarrow> 0 \<le> ?d \<and> ?d \<le> 0xff | Some b \<Rightarrow> b) = b"
        using "1.prems"(1) by simp
      have nb: "\<not> (b \<and> (0xff < ?d \<or> ?d < 0))"
        using False by simp
      have step: "compilePoints_run points pos lv rl u run
            = compilePoints_run points (pos + 1) ?cur (rl + 1) (Some b) (run @ enc_points b [?d])"
        using pos rl nb
        by (subst compilePoints_run.simps) (auto simp: MAX_RUN_LENGTH_def Let_def ub wd)
      have "\<exists>pos'. compilePoints_run points (pos + 1) ?cur (rl + 1) (Some b) (run @ enc_points b [?d])
            = Inr (pos', last (?cur # take (pos' - (pos + 1)) (drop (pos + 1) points)),
                   (rl + 1) + (pos' - (pos + 1)), Some b,
                   (run @ enc_points b [?d])
                     @ enc_points b (rel_from ?cur (take (pos' - (pos + 1)) (drop (pos + 1) points))))
          \<and> pos + 1 \<le> pos' \<and> pos' \<le> length points \<and> (rl + 1) + (pos' - (pos + 1)) \<le> 128
          \<and> (b \<longrightarrow> list_all ok8 (rel_from ?cur (take (pos' - (pos + 1)) (drop (pos + 1) points))))"
      proof (rule "1.IH" [where xb = b])
        show "pos < length points \<and> rl \<le> MAX_RUN_LENGTH"
          using True .
        show "?cur = points ! pos" "?d = ?cur - lv"
          by simp_all
        show "b = (case u of None \<Rightarrow> 0 \<le> ?d \<and> ?d \<le> 0xff | Some b \<Rightarrow> b)"
          using ub by simp
        show "\<not> (b \<and> (0xff < ?d \<or> ?d < 0))"
          using nb .
        show "write_delta b ?d = Inr (enc_points b [?d])"
          using wd .
        show "Some b = Some b"
          by simp
        show "pos + 1 \<le> length points" "rl + 1 \<le> 128"
          using pos rl by simp_all
        show "list_all ok16 (rel_from ?cur (drop (pos + 1) points))"
          using rest16 .
      qed
      then obtain pos' where
        r: "compilePoints_run points (pos + 1) ?cur (rl + 1) (Some b) (run @ enc_points b [?d])
            = Inr (pos', last (?cur # take (pos' - (pos + 1)) (drop (pos + 1) points)),
                   (rl + 1) + (pos' - (pos + 1)), Some b,
                   (run @ enc_points b [?d])
                     @ enc_points b (rel_from ?cur (take (pos' - (pos + 1)) (drop (pos + 1) points))))"
        and b: "pos + 1 \<le> pos'" "pos' \<le> length points" "(rl + 1) + (pos' - (pos + 1)) \<le> 128"
        and a8: "b \<longrightarrow> list_all ok8 (rel_from ?cur (take (pos' - (pos + 1)) (drop (pos + 1) points)))"
        by blast
      let ?seg' = "take (pos' - (pos + 1)) (drop (pos + 1) points)"
      have seg: "take (pos' - pos) (drop pos points) = ?cur # ?seg'"
        using pos b(1) by (rule segment_step)
      have rel: "rel_from lv (?cur # ?seg') = ?d # rel_from ?cur ?seg'"
        by simp
      have enc: "enc_points b (?d # rel_from ?cur ?seg')
                 = enc_points b [?d] @ enc_points b (rel_from ?cur ?seg')"
        using enc_points_append [of b "[?d]" "rel_from ?cur ?seg'"] by simp
      have cnt: "(rl + 1) + (pos' - (pos + 1)) = rl + (pos' - pos)"
        using b(1) by simp
      have d8: "b \<longrightarrow> ok8 ?d"
        using fits by simp
      show ?thesis
        apply (rule exI [of _ pos'])
        unfolding step r seg rel enc cnt [symmetric]
        using b a8 d8 by simp
    qed
  qed
qed


lemma rel_from_take: "rel_from lv (take n xs) = take n (rel_from lv xs)"
proof (induction xs arbitrary: lv n)
  case Nil
  then show ?case by simp
next
  case (Cons x xs)
  then show ?case by (cases n) simp_all
qed

text \<open>One run of the encoder, from its first point on.\<close>

lemma compilePoints_first_run:
  assumes pos: "pos < length points"
      and gaps: "list_all ok16 (rel_from lv (drop pos points))"
  shows "\<exists>pos' b. compilePoints_run points pos lv 0 None []
            = Inr (pos', last (lv # take (pos' - pos) (drop pos points)), pos' - pos, Some b,
                   enc_points b (rel_from lv (take (pos' - pos) (drop pos points))))
     \<and> pos < pos' \<and> pos' \<le> length points \<and> pos' - pos \<le> 128
     \<and> (b \<longrightarrow> list_all ok8 (rel_from lv (take (pos' - pos) (drop pos points))))"
proof -
  let ?cur = "points ! pos"
  let ?d = "?cur - lv"
  define b where "b = (0 \<le> ?d \<and> ?d \<le> 0xff)"
  have dr: "drop pos points = ?cur # drop (pos + 1) points"
    using pos by (rule drop_step)
  have d16: "ok16 ?d" and rest16: "list_all ok16 (rel_from ?cur (drop (pos + 1) points))"
    using gaps unfolding dr by simp_all
  have fits: "if b then ok8 ?d else ok16 ?d"
    using d16 by (auto simp: ok8_def b_def)
  have wd: "write_delta b ?d = Inr (enc_points b [?d])"
    using fits by (rule write_delta_ok)
  have nb: "\<not> (b \<and> (0xff < ?d \<or> ?d < 0))"
    by (auto simp: b_def)
  have step: "compilePoints_run points pos lv 0 None []
        = compilePoints_run points (pos + 1) ?cur (0 + 1) (Some b) ([] @ enc_points b [?d])"
    using pos nb wd
    by (subst compilePoints_run.simps) (auto simp: MAX_RUN_LENGTH_def Let_def b_def)
  from compilePoints_run_spec [OF refl, of "pos + 1" points "0 + 1" ?cur b "[] @ enc_points b [?d]"]
       pos rest16
  obtain pos' where
    r: "compilePoints_run points (pos + 1) ?cur (0 + 1) (Some b) ([] @ enc_points b [?d])
        = Inr (pos', last (?cur # take (pos' - (pos + 1)) (drop (pos + 1) points)),
               (0 + 1) + (pos' - (pos + 1)), Some b,
               ([] @ enc_points b [?d])
                 @ enc_points b (rel_from ?cur (take (pos' - (pos + 1)) (drop (pos + 1) points))))"
    and bd: "pos + 1 \<le> pos'" "pos' \<le> length points" "(0 + 1) + (pos' - (pos + 1)) \<le> 128"
    and a8: "b \<longrightarrow> list_all ok8 (rel_from ?cur (take (pos' - (pos + 1)) (drop (pos + 1) points)))"
    by auto
  let ?seg' = "take (pos' - (pos + 1)) (drop (pos + 1) points)"
  have seg: "take (pos' - pos) (drop pos points) = ?cur # ?seg'"
    using pos bd(1) by (rule segment_step)
  have rel: "rel_from lv (?cur # ?seg') = ?d # rel_from ?cur ?seg'"
    by simp
  have enc: "enc_points b (?d # rel_from ?cur ?seg')
             = enc_points b [?d] @ enc_points b (rel_from ?cur ?seg')"
    using enc_points_append [of b "[?d]" "rel_from ?cur ?seg'"] by simp
  have cnt: "(0 + 1) + (pos' - (pos + 1)) = pos' - pos"
    using bd(1) by simp
  have d8: "b \<longrightarrow> ok8 ?d"
    using fits by simp
  show ?thesis
    apply (rule exI [of _ pos'], rule exI [of _ b])
    unfolding step r seg rel enc cnt
    using bd a8 d8 cnt by simp
qed

text \<open>The same run with its header: what the outer loop appends, as a run of the decoder.\<close>

lemma compilePoints_run_header:
  assumes rl: "1 \<le> rl" "rl \<le> 128"
      and len: "length ds = rl"
      and all16: "list_all ok16 ds"
      and all8: "b \<longrightarrow> list_all ok8 ds"
  shows "\<exists>h. (if Some b = Some True
               then bytechr (int rl - 1)
               else bytechr ((int rl - 1) OR POINTS_ARE_WORDS)) = Inr h
           \<and> point_run h (enc_points b ds) ds"
proof (cases b)
  case True
  then have "bytechr (int rl - 1) = Inr (word_of_int (int rl - 1))"
    using rl by (simp add: bytechr_def)
  moreover have "point_run (word_of_int (int rl - 1)) (enc_points b ds) ds"
    using True rl all8 unfolding point_run_def enc_points_def len by simp
  ultimately show ?thesis
    using True by simp
next
  case False
  have or: "(int rl - 1) OR 0x80 = 128 + (int rl - 1)"
    using rl by (intro or_0x80_right) auto
  have "bytechr ((int rl - 1) OR POINTS_ARE_WORDS) = Inr (word_of_int ((int rl - 1) OR 0x80))"
    unfolding POINTS_ARE_WORDS_def or using rl by (simp add: bytechr_def)
  moreover have "point_run (word_of_int ((int rl - 1) OR 0x80)) (enc_points b ds) ds"
    using False rl all16 unfolding point_run_def enc_points_def len by simp
  ultimately show ?thesis
    using False by simp
qed


lemma point_roundtrip_loop:
  "pos \<le> length points \<Longrightarrow> list_all ok16 (rel_from lv (drop pos points)) \<Longrightarrow>
   \<exists>tail. compilePoints_loop points pos lv result = Inr (result @ tail)
     \<and> (\<forall>r. decompilePoints_loop (length r + (length points - pos)) (result @ tail) r (length result)
            = Inr (r @ rel_from lv (drop pos points), length (result @ tail)))"
proof (induction "length points - pos" arbitrary: pos lv result rule: less_induct)
  case less
  show ?case
  proof (cases "pos < length points")
    case False
    then have "compilePoints_loop points pos lv result = Inr (result @ [])"
      by (subst compilePoints_loop.simps) simp
    moreover have "\<forall>r. decompilePoints_loop (length r + (length points - pos)) (result @ []) r (length result)
            = Inr (r @ rel_from lv (drop pos points), length (result @ []))"
      using False by (subst decompilePoints_loop.simps) simp
    ultimately show ?thesis by blast
  next
    case True
    from compilePoints_first_run [OF True less.prems(2)]
    obtain pos' b where
      run: "compilePoints_run points pos lv 0 None []
            = Inr (pos', last (lv # take (pos' - pos) (drop pos points)), pos' - pos, Some b,
                   enc_points b (rel_from lv (take (pos' - pos) (drop pos points))))"
      and adv: "pos < pos'" "pos' \<le> length points" "pos' - pos \<le> 128"
      and a8: "b \<longrightarrow> list_all ok8 (rel_from lv (take (pos' - pos) (drop pos points)))"
      by blast
    let ?seg = "take (pos' - pos) (drop pos points)"
    let ?ds = "rel_from lv ?seg"
    let ?lv' = "last (lv # ?seg)"
    have lends: "length ?ds = pos' - pos"
      using adv by (simp add: length_rel_from)
    have split: "drop pos points = ?seg @ drop pos' points"
      using segment_then_rest [of pos pos' points] adv by simp
    have rels: "rel_from lv (drop pos points) = ?ds @ rel_from ?lv' (drop pos' points)"
      using rel_from_append [of lv ?seg "drop pos' points"] split by simp
    have ds16: "list_all ok16 ?ds" and rest16: "list_all ok16 (rel_from ?lv' (drop pos' points))"
      using less.prems(2) unfolding rels by simp_all
    have rl1: "1 \<le> pos' - pos"
      using adv(1) by simp
    from compilePoints_run_header [OF rl1 adv(3) lends ds16 a8]
    obtain h where
      hdr: "(if Some b = Some True
             then bytechr (int (pos' - pos) - 1)
             else bytechr ((int (pos' - pos) - 1) OR POINTS_ARE_WORDS)) = Inr h"
      and pr: "point_run h (enc_points b ?ds) ?ds"
      by blast
    let ?payload = "enc_points b ?ds"
    have "length points - pos' < length points - pos"
      using adv True by simp
    from less.hyps [OF this adv(2) rest16, of "result @ [h] @ ?payload"]
    obtain tail' where
      comp: "compilePoints_loop points pos' ?lv' (result @ [h] @ ?payload)
             = Inr ((result @ [h] @ ?payload) @ tail')"
      and dec: "\<And>r. decompilePoints_loop (length r + (length points - pos'))
                   ((result @ [h] @ ?payload) @ tail') r (length (result @ [h] @ ?payload))
                = Inr (r @ rel_from ?lv' (drop pos' points), length ((result @ [h] @ ?payload) @ tail'))"
      by blast
    let ?data = "result @ h # ?payload @ tail'"
    have data: "(result @ [h] @ ?payload) @ tail' = ?data"
      by simp
    have "compilePoints_loop points pos lv result
          = compilePoints_loop points pos' ?lv' (result @ [h] @ ?payload)"
      by (subst compilePoints_loop.simps) (simp only: True if_True run sum.case prod.case hdr)
    with comp have c: "compilePoints_loop points pos lv result = Inr (result @ (h # ?payload @ tail'))"
      by simp
    have d: "decompilePoints_loop (length r + (length points - pos)) ?data r (length result)
             = Inr (r @ rel_from lv (drop pos points), length ?data)" for r
    proof -
      let ?n = "length r + (length points - pos)"
      have less: "length r < ?n"
        using True by simp
      have n: "length (r @ ?ds) + (length points - pos') = ?n"
        using adv by (simp add: lends)
      have p: "length (result @ [h] @ ?payload) = length result + 1 + length ?payload"
        by simp
      have "decompilePoints_loop ?n ?data r (length result)
            = decompilePoints_loop ?n ?data (r @ ?ds) (length result + 1 + length ?payload)"
        by (rule decode_point_run [OF pr less])
      also have "\<dots> = Inr ((r @ ?ds) @ rel_from ?lv' (drop pos' points), length ?data)"
        using dec [of "r @ ?ds"] unfolding data n p .
      finally show ?thesis
        unfolding rels by simp
    qed
    from c d show ?thesis
      by (intro exI [of _ "h # ?payload @ tail'"]) simp
  qed
qed


text \<open>The count that \<^const>\<open>compilePoints\<close> writes first, and how the decoder reads it.\<close>

definition count_bytes :: "int \<Rightarrow> error + byte list" where
  "count_bytes numPoints =
     (if numPoints < 0x80
      then (case bytechr numPoints of Inl e \<Rightarrow> Inl e | Inr b \<Rightarrow> Inr [b])
      else (case bytechr (drop_bit 8 numPoints OR 0x80) of
              Inl e \<Rightarrow> Inl e
            | Inr b1 \<Rightarrow> (case bytechr (numPoints AND 0xff) of
                           Inl e \<Rightarrow> Inl e
                         | Inr b2 \<Rightarrow> Inr [b1, b2])))"

lemma compilePoints_unfold:
  "card S \<noteq> N \<Longrightarrow>
   compilePoints S N =
     (case count_bytes (int (length (sorted_list_of_set S))) of
        Inl e \<Rightarrow> Inl e
      | Inr result \<Rightarrow> compilePoints_loop (sorted_list_of_set S) 0 0 result)"
  by (simp only: compilePoints_def count_bytes_def Let_def if_False)

lemma push_or_byte:
  fixes k m :: int
  assumes "0 \<le> m" "m < 256"
  shows "push_bit 8 k OR m = 256 * k + m"
proof -
  have "concat_bit 8 m k = take_bit 8 m + push_bit 8 k"
    by (rule concat_bit_eq)
  moreover have "concat_bit 8 m k = take_bit 8 m OR push_bit 8 k"
    by (simp add: concat_bit_def)
  moreover have "take_bit 8 m = m"
    using assms by (simp add: take_bit_int_eq_self)
  ultimately show ?thesis
    by (simp add: push_bit_eq_mult or.commute)
qed

lemma count_small:
  assumes "0 \<le> n" "n < 128"
  shows "count_bytes n = Inr [word_of_int n]"
    and "readNumPointsInData (word_of_int n # tail) 0 = Inr (n, 1)"
proof -
  show "count_bytes n = Inr [word_of_int n]"
    using assms by (simp add: count_bytes_def bytechr_def)
  have h: "byteord (word_of_int n) = n"
    unfolding byteord_def using assms by (intro uint_byte_of_int) auto
  have w: "n AND POINTS_ARE_WORDS = 0"
    using and_0x80 [of n] point_hdr_arith(4) [OF assms] unfolding POINTS_ARE_WORDS_def by blast
  show "readNumPointsInData (word_of_int n # tail) 0 = Inr (n, 1)"
    by (simp add: readNumPointsInData_def Let_def h w)
qed

lemma count_large:
  assumes "128 \<le> n" "n < 32768"
  shows "count_bytes n = Inr [word_of_int (128 + n div 256), word_of_int (n mod 256)]"
    and "readNumPointsInData (word_of_int (128 + n div 256) # word_of_int (n mod 256) # tail) 0
         = Inr (n, 2)"
proof -
  define k where "k = n div 256"
  define m where "m = n mod 256"
  have k: "0 \<le> k" "k < 128"
    using assms zdiv_mono1 [of n 32767 256] by (simp_all add: k_def pos_imp_zdiv_nonneg_iff)
  have m: "0 \<le> m" "m < 256"
    by (simp_all add: m_def)
  have n: "256 * k + m = n"
    by (simp add: k_def m_def)
  have or: "k OR 0x80 = 128 + k"
    using k by (intro or_0x80_right) auto
  show "count_bytes n = Inr [word_of_int (128 + n div 256), word_of_int (n mod 256)]"
    using assms k m unfolding count_bytes_def drop_bit_eq_div and_0xff
    by (simp add: k_def [symmetric] m_def [symmetric] or bytechr_def)
  define b1 :: byte where "b1 = word_of_int (128 + k)"
  define b2 :: byte where "b2 = word_of_int m"
  have h1: "byteord b1 = 128 + k"
    unfolding byteord_def b1_def using k by (intro uint_byte_of_int) auto
  have h2: "byteord b2 = m"
    unfolding byteord_def b2_def using m by (intro uint_byte_of_int) auto
  have w: "(128 + k) AND POINTS_ARE_WORDS \<noteq> 0"
    unfolding POINTS_ARE_WORDS_def and_0x80 by (rule point_hdr_arith(3) [OF k])
  have msk: "(128 + k) AND POINT_RUN_COUNT_MASK = k"
    unfolding POINT_RUN_COUNT_MASK_def and_0x7f by (rule point_hdr_arith(1) [OF k])
  have "readNumPointsInData (b1 # b2 # tail) 0 = Inr (push_bit 8 k OR m, 2)"
    using w by (simp add: readNumPointsInData_def Let_def h1 h2 msk)
  then have "readNumPointsInData (b1 # b2 # tail) 0 = Inr (n, 2)"
    by (simp only: push_or_byte [OF m] n)
  then show "readNumPointsInData (word_of_int (128 + n div 256) # word_of_int (n mod 256) # tail) 0
         = Inr (n, 2)"
    unfolding b1_def b2_def k_def m_def .
qed

lemma count_roundtrip:
  assumes "1 \<le> n" "n < 32768"
  shows "\<exists>hdr. count_bytes n = Inr hdr
           \<and> (\<forall>tail. readNumPointsInData (hdr @ tail) 0 = Inr (n, length hdr))"
proof (cases "n < 128")
  case True
  with assms count_small [of n] show ?thesis
    by (intro exI [of _ "[word_of_int n]"]) simp
next
  case False
  with assms count_large [of n] show ?thesis
    by (intro exI [of _ "[word_of_int (128 + n div 256), word_of_int (n mod 256)]"]) simp
qed


text \<open>
  The deltas of a sorted list without repetitions stay within 16 bits when every
  point is at most 65535 above \<open>lv\<close> or above a smaller point of the list.
\<close>

lemma gaps_from_set:
  "sorted xs \<Longrightarrow> distinct xs \<Longrightarrow> \<forall>x \<in> set xs. lv \<le> x \<Longrightarrow>
   \<forall>x \<in> set xs. x - lv \<le> 65535 \<or> (\<exists>y \<in> set xs. y < x \<and> x - y \<le> 65535) \<Longrightarrow>
   list_all ok16 (rel_from lv xs)"
proof (induction xs arbitrary: lv)
  case Nil
  then show ?case by simp
next
  case (Cons x xs)
  have above: "\<forall>z \<in> set xs. x < z"
    using Cons.prems(1,2) by (auto simp: order_less_le)
  have "x - lv \<le> 65535"
    using Cons.prems(4) above by fastforce
  moreover have "0 \<le> x - lv"
    using Cons.prems(3) by simp
  ultimately have "ok16 (x - lv)"
    by (simp add: ok16_def)
  moreover have "list_all ok16 (rel_from x xs)"
  proof (rule Cons.IH)
    show "sorted xs" "distinct xs"
      using Cons.prems(1,2) by simp_all
    show "\<forall>z \<in> set xs. x \<le> z"
      using above by auto
    show "\<forall>z \<in> set xs. z - x \<le> 65535 \<or> (\<exists>y \<in> set xs. y < z \<and> z - y \<le> 65535)"
    proof
      fix z assume z: "z \<in> set xs"
      with Cons.prems(4)
      have "z - lv \<le> 65535 \<or> (\<exists>y \<in> set (x # xs). y < z \<and> z - y \<le> 65535)"
        by simp
      moreover have "lv \<le> x"
        using Cons.prems(3) by simp
      ultimately show "z - x \<le> 65535 \<or> (\<exists>y \<in> set xs. y < z \<and> z - y \<le> 65535)"
        by auto
    qed
  qed
  ultimately show ?case
    by simp
qed

lemma sorted_list_full: "sorted_list_of_set {0..<int N} = map int [0..<N]"
proof -
  have "set (map int [0..<N]) = {0..<int N}"
    by (simp add: image_int_atLeastLessThan)
  moreover have "sorted (map int [0..<N])"
    by (simp add: sorted_map sorted_wrt_iff_nth_less)
  moreover have "distinct (map int [0..<N])"
    by (simp add: distinct_map)
  ultimately show ?thesis
    by (metis sorted_list_of_set.idem_if_sorted_distinct)
qed

text \<open>
  The encoder on a sorted list with deltas of at most 16 bits, fewer than \<open>65536\<close>
  long and not of the length of the glyph: some header for the count, then the runs,
  which the loop of the decoder reads back.
\<close>

lemma compilePoints_runs:
  assumes fin: "finite S" and low: "\<forall>x \<in> S. 0 \<le> x"
      and gaps: "\<forall>x \<in> S. x \<le> 65535 \<or> (\<exists>y \<in> S. y < x \<and> x - y \<le> 65535)"
      and cnt: "count_bytes (int (card S)) = Inr hdr" and full: "card S \<noteq> N"
  shows "\<exists>tail. compilePoints S N = Inr (hdr @ tail)
           \<and> decompilePoints_loop (card S) (hdr @ tail) [] (length hdr)
               = Inr (rel_from 0 (sorted_list_of_set S), length (hdr @ tail))"
proof -
  let ?pts = "sorted_list_of_set S"
  have l: "length ?pts = card S"
    by simp
  have "list_all ok16 (rel_from 0 ?pts)"
  proof (rule gaps_from_set)
    show "sorted ?pts" "distinct ?pts"
      by simp_all
    show "\<forall>x \<in> set ?pts. 0 \<le> x"
      using low fin by simp
    show "\<forall>x \<in> set ?pts. x - 0 \<le> 65535 \<or> (\<exists>y \<in> set ?pts. y < x \<and> x - y \<le> 65535)"
      using gaps fin by simp
  qed
  then have "list_all ok16 (rel_from 0 (drop 0 ?pts))"
    by simp
  from point_roundtrip_loop [OF _ this, of hdr]
  obtain tail where
    c: "compilePoints_loop ?pts 0 0 hdr = Inr (hdr @ tail)"
    and d: "\<And>r. decompilePoints_loop (length r + (length ?pts - 0)) (hdr @ tail) r (length hdr)
               = Inr (r @ rel_from 0 (drop 0 ?pts), length (hdr @ tail))"
    by auto
  have "compilePoints S N = Inr (hdr @ tail)"
    using compilePoints_unfold [OF full] cnt c by (simp only: l sum.case)
  moreover have "decompilePoints_loop (card S) (hdr @ tail) [] (length hdr)
               = Inr (rel_from 0 ?pts, length (hdr @ tail))"
    using d [of "[]"] by (simp del: sorted_list_of_set.length_sorted_key_list_of_set add: l)
  ultimately show ?thesis
    by blast
qed

text \<open>
  Claim C1 (point-set round-trip), as amended. Let \<open>S\<close> be a non-empty set of point
  indices within \<open>[0, N)\<close> that is either the full set, or has fewer than 32768
  elements, each of them at most 65535 above 0 or above a smaller element of \<open>S\<close>
  (so that every delta fits 16 bits). Then \<^verbatim>\<open>compilePoints(S, N)\<close> returns a byte
  string, and \<^verbatim>\<open>decompilePoints_\<close> with \<open>numPoints = N\<close>, from offset 0, returns
  the elements of \<open>S\<close> in ascending order and the length of that string as the new
  offset, with no warning.
\<close>

theorem point_roundtrip:
  assumes "S \<noteq> {}" and "S \<subseteq> {0..<int N}" and "tableTag \<in> {''cvar'', ''gvar''}"
      and "card S = N \<or>
           (card S < 32768 \<and> (\<forall>x \<in> S. x \<le> 65535 \<or> (\<exists>y \<in> S. y < x \<and> x - y \<le> 65535)))"
  shows "\<exists>bs. compilePoints S N = Inr bs
              \<and> decompilePoints_' N bs 0 tableTag = Inr ((sorted_list_of_set S, length bs), [])"
proof (cases "card S = N")
  case True
  have "finite {0..<int N}" "card {0..<int N} = N"
    by simp_all
  with assms(2) True have S: "S = {0..<int N}"
    by (metis card_subset_eq)
  have "compilePoints S N = Inr [0]"
    using True by (simp add: compilePoints_def)
  moreover have "readNumPointsInData [0] 0 = Inr (0, 1)"
    by (simp add: readNumPointsInData_def byteord_def Let_def)
  then have "decompilePoints_' N [0] 0 tableTag = Inr ((sorted_list_of_set S, length [0 :: byte]), [])"
    using assms(3) unfolding S sorted_list_full by (simp add: decompilePoints_'_def)
  ultimately show ?thesis
    by blast
next
  case False
  with assms(4) have small: "card S < 32768"
    and gaps: "\<forall>x \<in> S. x \<le> 65535 \<or> (\<exists>y \<in> S. y < x \<and> x - y \<le> 65535)"
    by simp_all
  have fin: "finite S"
    using assms(2) finite_subset by blast
  have low: "\<forall>x \<in> S. 0 \<le> x" and range: "\<forall>p \<in> S. 0 \<le> p \<and> p < int N"
    using assms(2) by auto
  have "card S \<noteq> 0"
    using assms(1) fin by simp
  then have n: "1 \<le> int (card S)" "int (card S) < 32768"
    using small by simp_all
  from count_roundtrip [OF n] obtain hdr where
    cnt: "count_bytes (int (card S)) = Inr hdr"
    and rd: "\<And>tail. readNumPointsInData (hdr @ tail) 0 = Inr (int (card S), length hdr)"
    by blast
  from compilePoints_runs [OF fin low gaps cnt False] obtain tail where
    c: "compilePoints S N = Inr (hdr @ tail)"
    and d: "decompilePoints_loop (card S) (hdr @ tail) [] (length hdr)
            = Inr (rel_from 0 (sorted_list_of_set S), length (hdr @ tail))"
    by blast
  have bad: "\<forall>x \<in> set (sorted_list_of_set S). \<not> x < 0 \<and> \<not> int N \<le> x"
    using range fin by auto
  have "decompilePoints_' N (hdr @ tail) 0 tableTag
        = Inr ((sorted_list_of_set S, length (hdr @ tail)), [])"
    using assms(3) n(1) bad
    by (simp add: decompilePoints_'_def rd d absolute_rel_from Let_def)
  with c show ?thesis
    by blast
qed

text \<open>The round trip on the point set \<open>{17, ..., 23}\<close> of a glyph of 30 points.\<close>

theorem point_roundtrip_witness:
  "compilePoints {17, 18, 19, 20, 21, 22, 23} 30 = Inr [0x07, 0x06, 0x11, 0x01, 0x01, 0x01, 0x01, 0x01, 0x01]
   \<and> decompilePoints_' 30 [0x07, 0x06, 0x11, 0x01, 0x01, 0x01, 0x01, 0x01, 0x01] 0 ''gvar''
       = Inr (([17, 18, 19, 20, 21, 22, 23], 9), [])"
proof -
  let ?S = "{17, 18, 19, 20, 21, 22, 23} :: int set"
  let ?bs = "[0x07, 0x06, 0x11, 0x01, 0x01, 0x01, 0x01, 0x01, 0x01] :: byte list"
  have sorted: "sorted_list_of_set ?S = [17, 18, 19, 20, 21, 22, 23]"
    by simp
  have c: "compilePoints ?S 30 = Inr ?bs"
    unfolding compilePoints_def sorted by code_simp
  have lbs: "length ?bs = 9"
    by simp
  have h1: "?S \<noteq> {}" and h2: "?S \<subseteq> {0..<int 30}" and h3: "''gvar'' \<in> {''cvar'', ''gvar''}"
    by simp_all
  have h4: "card ?S = 30 \<or>
      (card ?S < 32768 \<and> (\<forall>x \<in> ?S. x \<le> 65535 \<or> (\<exists>y \<in> ?S. y < x \<and> x - y \<le> 65535)))"
    by simp
  from point_roundtrip [OF h1 h2 h3 h4] obtain bs where
    "compilePoints ?S 30 = Inr bs"
    and d: "decompilePoints_' 30 bs 0 ''gvar'' = Inr ((sorted_list_of_set ?S, length bs), [])"
    by blast
  with c have "bs = ?bs"
    by simp
  with d have "decompilePoints_' 30 ?bs 0 ''gvar'' = Inr (([17, 18, 19, 20, 21, 22, 23], 9), [])"
    by (simp only: sorted lbs)
  with c show ?thesis
    by blast
qed

lemma count_32768:
  "count_bytes 32768 = Inr [0x80, 0x00]"
  "readNumPointsInData (0x80 # 0x00 # tail) 0 = Inr (0, 2)"
  by (simp_all add: count_bytes_def bytechr_def readNumPointsInData_def byteord_def Let_def
        POINTS_ARE_WORDS_def POINT_RUN_COUNT_MASK_def)

lemma length_differs:
  "finite S \<Longrightarrow> card S \<noteq> N \<Longrightarrow> map int [0..<N] \<noteq> sorted_list_of_set S"
  by (metis length_map length_upt diff_zero sorted_list_of_set.length_sorted_key_list_of_set)

text \<open>
  The round trip as first stated, for every non-empty set within \<open>[0, N)\<close>, fails
  twice. The point 65536 alone gives a delta that does not fit two bytes, and
  \<^verbatim>\<open>bytechr\<close> raises. The 32768 points below 32768, in a glyph of 32769 points,
  give the count bytes \<open>80 00\<close>; the decoder reads a count of zero from them and
  returns all 32769 points, having read two bytes only.
\<close>

theorem point_roundtrip_counterexample:
  "compilePoints {65536} 65537 = Inl ValueError
   \<and> (case compilePoints {0..<32768} 32769 of
        Inl e \<Rightarrow> False
      | Inr bs \<Rightarrow> decompilePoints_' 32769 bs 0 ''gvar'' = Inr ((map int [0..<32769], 2), []))
   \<and> map int [0..<32769] \<noteq> sorted_list_of_set {0..<32768}"
proof (intro conjI)
  have run: "compilePoints_run [65536] 0 0 0 None [] = Inl ValueError"
    by (subst compilePoints_run.simps)
       (simp add: MAX_RUN_LENGTH_def Let_def write_delta_def bytechr_def)
  have "compilePoints_loop [65536] 0 0 [1] = Inl ValueError"
    by (subst compilePoints_loop.simps) (simp add: run)
  then show "compilePoints {65536} 65537 = Inl ValueError"
    by (simp add: compilePoints_def Let_def bytechr_def)
next
  let ?S = "{0..<32768} :: int set"
  have card: "card ?S = 32768"
    by simp
  have cnt: "count_bytes (int (card ?S)) = Inr [0x80, 0x00]"
    unfolding card using count_32768(1) by simp
  have full: "card ?S \<noteq> 32769"
    unfolding card by simp
  have "\<forall>x \<in> ?S. 0 \<le> x" "\<forall>x \<in> ?S. x \<le> 65535 \<or> (\<exists>y \<in> ?S. y < x \<and> x - y \<le> 65535)"
    by auto
  from compilePoints_runs [OF _ this cnt full] obtain tail where
    c: "compilePoints ?S 32769 = Inr ([0x80, 0x00] @ tail)"
    by auto
  have "decompilePoints_' 32769 ([0x80, 0x00] @ tail) 0 ''gvar'' = Inr ((map int [0..<32769], 2), [])"
    using count_32768(2) [of tail] by (simp add: decompilePoints_'_def)
  then show "case compilePoints ?S 32769 of
        Inl e \<Rightarrow> False
      | Inr bs \<Rightarrow> decompilePoints_' 32769 bs 0 ''gvar'' = Inr ((map int [0..<32769], 2), [])"
    by (simp only: c sum.case)
next
  have "card ({0..<32768} :: int set) \<noteq> 32769"
    by simp
  then show "map int [0..<32769] \<noteq> sorted_list_of_set {0..<32768}"
    by (intro length_differs) simp_all
qed

section \<open>Properties of compile\<close>

text \<open>
  The parts of the result of \<^const>\<open>compile\<close>: the auxiliary data, the flags and the
  coordinate bytes after the four header bytes.
\<close>

definition compile_auxData :: "'f TupleVariation \<Rightarrow> int set option \<Rightarrow> error + byte list" where
  "compile_auxData tv sharedPoints =
     (case sharedPoints of
        Some sp \<Rightarrow> compileDeltas tv sp
      | None \<Rightarrow>
          (case compilePoints (getUsedPoints tv) (length (coordinates tv)) of
             Inl e \<Rightarrow> Inl e
           | Inr ps \<Rightarrow>
               (case compileDeltas tv (getUsedPoints tv) of
                  Inl e \<Rightarrow> Inl e
                | Inr ds \<Rightarrow> Inr (ps @ ds))))"

definition compile_flags :: "int option \<Rightarrow> byte list option \<Rightarrow> int set option \<Rightarrow> int" where
  "compile_flags shared intermediateCoord sharedPoints =
     (case shared of Some idx \<Rightarrow> idx | None \<Rightarrow> EMBEDDED_PEAK_TUPLE)
       OR (case intermediateCoord of None \<Rightarrow> 0 | Some ic \<Rightarrow> INTERMEDIATE_REGION)
       OR (case sharedPoints of None \<Rightarrow> PRIVATE_POINT_NUMBERS | Some sp \<Rightarrow> 0)"

definition compile_coords :: "int option \<Rightarrow> byte list \<Rightarrow> byte list option \<Rightarrow> byte list" where
  "compile_coords shared coord intermediateCoord =
     (case shared of Some idx \<Rightarrow> [] | None \<Rightarrow> coord)
       @ (case intermediateCoord of None \<Rightarrow> [] | Some ic \<Rightarrow> ic)"

lemma compile_unfold:
  assumes "dom (axes tv) \<subseteq> set axisTags"
      and "compileCoord floatToFixed tv axisTags = Inr coord"
      and "compileIntermediateCoord floatToFixed tv axisTags = Inr ic"
  shows "compile floatToFixed tv axisTags sharedCoordIndices sharedPoints =
         (case compile_auxData tv sharedPoints of
            Inl e \<Rightarrow> Inl e
          | Inr auxData \<Rightarrow>
              (case pack_HH (int (length auxData))
                      (compile_flags (sharedCoordIndices coord) ic sharedPoints) of
                 Inl e \<Rightarrow> Inl e
               | Inr hdr \<Rightarrow> Inr (hdr @ compile_coords (sharedCoordIndices coord) coord ic, auxData)))"
proof (cases sharedPoints)
  case None
  show ?thesis
  proof (cases "sharedCoordIndices coord")
    case n: None
    show ?thesis
      by (cases ic)
         (simp_all add: compile_def assms None n compile_auxData_def compile_flags_def
            compile_coords_def Let_def or.assoc split: sum.splits)
  next
    case s: (Some idx)
    show ?thesis
      by (cases ic)
         (simp_all add: compile_def assms None s compile_auxData_def compile_flags_def
            compile_coords_def Let_def or.assoc split: sum.splits)
  qed
next
  case (Some sp)
  show ?thesis
  proof (cases "sharedCoordIndices coord")
    case n: None
    show ?thesis
      by (cases ic)
         (simp_all add: compile_def assms Some n compile_auxData_def compile_flags_def
            compile_coords_def Let_def or.assoc split: sum.splits)
  next
    case s: (Some idx)
    show ?thesis
      by (cases ic)
         (simp_all add: compile_def assms Some s compile_auxData_def compile_flags_def
            compile_coords_def Let_def or.assoc split: sum.splits)
  qed
qed

lemma compile_fails:
  "compileCoord floatToFixed tv axisTags = Inl e
   \<Longrightarrow> compile floatToFixed tv axisTags sharedCoordIndices sharedPoints \<noteq> Inr r"
  "compileCoord floatToFixed tv axisTags = Inr coord
   \<Longrightarrow> compileIntermediateCoord floatToFixed tv axisTags = Inl e
   \<Longrightarrow> compile floatToFixed tv axisTags sharedCoordIndices sharedPoints \<noteq> Inr r"
  by (simp_all add: compile_def split: option.splits)


lemma compile_iff:
  assumes tags: "dom (axes tv) \<subseteq> set axisTags"
  shows "compile floatToFixed tv axisTags sharedCoordIndices sharedPoints = Inr (tupleData, auxData)
    \<longleftrightarrow>
     (\<exists>coord ic hdr.
        compileCoord floatToFixed tv axisTags = Inr coord
      \<and> compileIntermediateCoord floatToFixed tv axisTags = Inr ic
      \<and> compile_auxData tv sharedPoints = Inr auxData
      \<and> pack_HH (int (length auxData)) (compile_flags (sharedCoordIndices coord) ic sharedPoints)
          = Inr hdr
      \<and> tupleData = hdr @ compile_coords (sharedCoordIndices coord) coord ic)"
    (is "?lhs \<longleftrightarrow> ?rhs")
proof
  assume l: ?lhs
  obtain coord where c: "compileCoord floatToFixed tv axisTags = Inr coord"
    using l compile_fails(1) [of floatToFixed tv axisTags]
    by (cases "compileCoord floatToFixed tv axisTags") auto
  obtain ic where i: "compileIntermediateCoord floatToFixed tv axisTags = Inr ic"
    using l compile_fails(2) [OF c]
    by (cases "compileIntermediateCoord floatToFixed tv axisTags") auto
  from l show ?rhs
    unfolding compile_unfold [OF tags c i]
    using c i by (auto split: sum.splits)
next
  assume ?rhs
  then obtain coord ic hdr where
    c: "compileCoord floatToFixed tv axisTags = Inr coord"
    and i: "compileIntermediateCoord floatToFixed tv axisTags = Inr ic"
    and rest: "compile_auxData tv sharedPoints = Inr auxData"
      "pack_HH (int (length auxData)) (compile_flags (sharedCoordIndices coord) ic sharedPoints)
          = Inr hdr"
      "tupleData = hdr @ compile_coords (sharedCoordIndices coord) coord ic"
    by blast
  show ?lhs
    unfolding compile_unfold [OF tags c i] by (simp add: rest)
qed

lemma compile_auxData_iff:
  "compile_auxData tv sharedPoints = Inr auxData \<longleftrightarrow>
     (case sharedPoints of
        Some sp \<Rightarrow> compileDeltas tv sp = Inr auxData
      | None \<Rightarrow>
          (\<exists>ps ds. compilePoints (getUsedPoints tv) (length (coordinates tv)) = Inr ps
             \<and> compileDeltas tv (getUsedPoints tv) = Inr ds \<and> auxData = ps @ ds))"
  by (auto simp: compile_auxData_def split: option.splits sum.splits)

lemma pack_HH_iff:
  "pack_HH a b = Inr hdr \<longleftrightarrow>
     0 \<le> a \<and> a \<le> 65535 \<and> 0 \<le> b \<and> b \<le> 65535
     \<and> hdr = [word_of_int (a div 256), word_of_int (a mod 256),
              word_of_int (b div 256), word_of_int (b mod 256)]"
  by (auto simp: pack_HH_def)

text \<open>
  Claim C4 (compile: flags and layout). For a TupleVariation whose axis tags all occur in
  \<open>axisTags\<close>, \<^verbatim>\<open>compile\<close> returns \<open>(tupleData, auxData)\<close> exactly when the peak
  and the intermediate coordinates compile, the auxiliary data compile to \<open>auxData\<close>,
  and the length of \<open>auxData\<close> and the flags fit 16 bits, where: the flags are the
  shared index when the peak bytes are a key of \<open>sharedCoordIndices\<close>, else
  \<open>EMBEDDED_PEAK_TUPLE\<close> with the peak bytes appended; \<open>INTERMEDIATE_REGION\<close> is
  set and the intermediate bytes appended when there are any; \<open>PRIVATE_POINT_NUMBERS\<close>
  is set, and the packed points of \<^verbatim>\<open>getUsedPoints\<close> put before the deltas, exactly
  when \<open>sharedPoints\<close> is \<open>None\<close>; and \<open>tupleData\<close> is the big-endian pair of the
  length of \<open>auxData\<close> and the flags, followed by the appended coordinate bytes.
\<close>

theorem compile_flags_and_layout:
  assumes tags: "dom (axes tv) \<subseteq> set axisTags"
  shows "compile floatToFixed tv axisTags sharedCoordIndices sharedPoints = Inr (tupleData, auxData)
    \<longleftrightarrow>
     (\<exists>coord intermediateCoord flags.
        compileCoord floatToFixed tv axisTags = Inr coord
      \<and> compileIntermediateCoord floatToFixed tv axisTags = Inr intermediateCoord
      \<and> flags = (case sharedCoordIndices coord of Some idx \<Rightarrow> idx | None \<Rightarrow> EMBEDDED_PEAK_TUPLE)
                  OR (case intermediateCoord of None \<Rightarrow> 0 | Some ic \<Rightarrow> INTERMEDIATE_REGION)
                  OR (case sharedPoints of None \<Rightarrow> PRIVATE_POINT_NUMBERS | Some sp \<Rightarrow> 0)
      \<and> (case sharedPoints of
            Some sp \<Rightarrow> compileDeltas tv sp = Inr auxData
          | None \<Rightarrow>
              (\<exists>ps ds. compilePoints (getUsedPoints tv) (length (coordinates tv)) = Inr ps
                 \<and> compileDeltas tv (getUsedPoints tv) = Inr ds \<and> auxData = ps @ ds))
      \<and> 0 \<le> flags \<and> flags \<le> 65535 \<and> length auxData \<le> 65535
      \<and> tupleData =
            [word_of_int (int (length auxData) div 256), word_of_int (int (length auxData) mod 256),
             word_of_int (flags div 256), word_of_int (flags mod 256)]
            @ (case sharedCoordIndices coord of Some idx \<Rightarrow> [] | None \<Rightarrow> coord)
            @ (case intermediateCoord of None \<Rightarrow> [] | Some ic \<Rightarrow> ic))"
    (is "?lhs \<longleftrightarrow> ?rhs")
proof
  assume ?lhs
  then obtain coord ic hdr where
    c: "compileCoord floatToFixed tv axisTags = Inr coord"
    and i: "compileIntermediateCoord floatToFixed tv axisTags = Inr ic"
    and a: "compile_auxData tv sharedPoints = Inr auxData"
    and p: "pack_HH (int (length auxData)) (compile_flags (sharedCoordIndices coord) ic sharedPoints)
          = Inr hdr"
    and t: "tupleData = hdr @ compile_coords (sharedCoordIndices coord) coord ic"
    unfolding compile_iff [OF tags] by blast
  show ?rhs
    apply (rule exI [of _ coord], rule exI [of _ ic],
           rule exI [of _ "compile_flags (sharedCoordIndices coord) ic sharedPoints"])
    using c i a [unfolded compile_auxData_iff] p [unfolded pack_HH_iff] t
    by (simp add: compile_flags_def compile_coords_def)
next
  assume ?rhs
  then obtain coord ic flags where
    c: "compileCoord floatToFixed tv axisTags = Inr coord"
    and i: "compileIntermediateCoord floatToFixed tv axisTags = Inr ic"
    and f: "flags = compile_flags (sharedCoordIndices coord) ic sharedPoints"
    and a: "case sharedPoints of
            Some sp \<Rightarrow> compileDeltas tv sp = Inr auxData
          | None \<Rightarrow>
              (\<exists>ps ds. compilePoints (getUsedPoints tv) (length (coordinates tv)) = Inr ps
                 \<and> compileDeltas tv (getUsedPoints tv) = Inr ds \<and> auxData = ps @ ds)"
    and r: "0 \<le> flags" "flags \<le> 65535" "length auxData \<le> 65535"
    and t: "tupleData =
            [word_of_int (int (length auxData) div 256), word_of_int (int (length auxData) mod 256),
             word_of_int (flags div 256), word_of_int (flags mod 256)]
            @ compile_coords (sharedCoordIndices coord) coord ic"
    unfolding compile_flags_def compile_coords_def by blast
  have "pack_HH (int (length auxData)) flags
        = Inr [word_of_int (int (length auxData) div 256), word_of_int (int (length auxData) mod 256),
               word_of_int (flags div 256), word_of_int (flags mod 256)]"
    using r by (simp add: pack_HH_def)
  with c i a t show ?lhs
    unfolding compile_iff [OF tags] compile_auxData_iff f by blast
qed


text \<open>
  The axis \<open>wght\<close> with the region \<open>(-0.5, 1.0, 1.0)\<close> and one point set out of two,
  with \<^verbatim>\<open>floatToFixed\<close> rounding \<open>value * 2 ^ precisionBits\<close>: first with private
  points and an embedded peak (flags \<open>0xE000\<close>), then with shared points and the peak
  bytes \<open>40 00\<close> shared at index 5 (flags \<open>0x4005\<close>).
\<close>

theorem compile_flags_and_layout_witness:
  "compile (\<lambda>v p. round (v * 2 ^ p))
     \<lparr>axes = [''wght'' \<mapsto> (- 1 / 2, 1, 1 :: real)], coordinates = [Some (XY 1 2), None]\<rparr>
     [''wght''] Map.empty None
   = Inr ([0x00, 0x07, 0xE0, 0x00, 0x40, 0x00, 0xE0, 0x00, 0x40, 0x00],
          [0x01, 0x00, 0x00, 0x00, 0x01, 0x00, 0x02])
   \<and> compile (\<lambda>v p. round (v * 2 ^ p))
     \<lparr>axes = [''wght'' \<mapsto> (- 1 / 2, 1, 1 :: real)], coordinates = [Some (XY 1 2), None]\<rparr>
     [''wght''] [[0x40, 0x00] \<mapsto> 5] (Some {0})
   = Inr ([0x00, 0x04, 0x40, 0x05, 0xE0, 0x00, 0x40, 0x00], [0x00, 0x01, 0x00, 0x02])"
proof -
  define f :: "real \<Rightarrow> nat \<Rightarrow> int" where "f = (\<lambda>v p. round (v * 2 ^ p))"
  define tv :: "real TupleVariation" where
    "tv = \<lparr>axes = [''wght'' \<mapsto> (- 1 / 2, 1, 1 :: real)], coordinates = [Some (XY 1 2), None]\<rparr>"
  have tags: "dom (axes tv) \<subseteq> set [''wght'']"
    by (simp add: tv_def)
  have coord: "compileCoord f tv [''wght''] = Inr [0x40, 0x00]"
    by (simp add: compileCoord_def axes_get_def pack_h_def tv_def f_def)
  have ic: "compileIntermediateCoord f tv [''wght''] = Inr (Some [0xE0, 0x00, 0x40, 0x00])"
    by (simp add: compileIntermediateCoord_def axes_get_def pack_h_def tv_def f_def)
  have used: "getUsedPoints tv = {0}"
    by (simp add: getUsedPoints_def upt_rec tv_def)
  have x: "compileDeltaValues_' [1] = Inr [0x00, 0x01]" and y: "compileDeltaValues_' [2] = Inr [0x00, 0x02]"
    by code_simp+
  have deltas: "compileDeltas tv {0} = Inr [0x00, 0x01, 0x00, 0x02]"
    by (simp add: compileDeltas_def py_index_def x y tv_def)
  have run: "compilePoints_run [0] 0 0 0 None [] = Inr (1, 0, 1, Some True, [0x00])"
    by (subst compilePoints_run.simps, simp add: MAX_RUN_LENGTH_def Let_def write_delta_def bytechr_def)
       (subst compilePoints_run.simps, simp)
  have "compilePoints_loop [0] 0 0 [0x01] = Inr [0x01, 0x00, 0x00]"
    by (subst compilePoints_loop.simps, simp add: run bytechr_def)
       (subst compilePoints_loop.simps, simp)
  then have points: "compilePoints {0} (length (coordinates tv)) = Inr [0x01, 0x00, 0x00]"
    by (simp add: compilePoints_def Let_def bytechr_def tv_def)
  have f1: "EMBEDDED_PEAK_TUPLE OR INTERMEDIATE_REGION OR PRIVATE_POINT_NUMBERS = 0xE000"
    and f2: "5 OR INTERMEDIATE_REGION OR (0::int) = 0x4005" "5 OR INTERMEDIATE_REGION = 0x4005"
    by (simp_all add: EMBEDDED_PEAK_TUPLE_def INTERMEDIATE_REGION_def PRIVATE_POINT_NUMBERS_def)
  have "compile f tv [''wght''] Map.empty None
        = Inr ([0x00, 0x07, 0xE0, 0x00, 0x40, 0x00, 0xE0, 0x00, 0x40, 0x00],
               [0x01, 0x00, 0x00, 0x00, 0x01, 0x00, 0x02])"
    unfolding compile_flags_and_layout [OF tags]
    apply (rule exI [of _ "[0x40, 0x00]"], rule exI [of _ "Some [0xE0, 0x00, 0x40, 0x00]"],
           rule exI [of _ "0xE000"])
    apply (simp add: coord ic used deltas points f1)
    done
  moreover have "compile f tv [''wght''] [[0x40, 0x00] \<mapsto> 5] (Some {0})
        = Inr ([0x00, 0x04, 0x40, 0x05, 0xE0, 0x00, 0x40, 0x00], [0x00, 0x01, 0x00, 0x02])"
    unfolding compile_flags_and_layout [OF tags]
    apply (rule exI [of _ "[0x40, 0x00]"], rule exI [of _ "Some [0xE0, 0x00, 0x40, 0x00]"],
           rule exI [of _ "0x4005"])
    apply (simp add: coord ic deltas f2)
    done
  ultimately show ?thesis
    unfolding f_def tv_def by (rule conjI)
qed

end
